theory Spec2Isabelle
  imports Complex_Main "HOL-Library.AList" "HOL-Library.Multiset"
begin

section \<open>Data model of the agentic workflow (agentic/types.ts)\<close>

text \<open>
  JavaScript \<open>Map\<close> objects iterate in insertion order and \<open>set\<close> on an existing key
  keeps the key's position; they are modelled as association lists, with
  \<open>AList.update\<close> for \<open>set\<close>, \<open>map_of\<close> for \<open>get\<close> and \<open>AList.delete\<close> for \<open>delete\<close>.
\<close>

datatype StepStatus = Pending | Active | Done | Failed | Skipped

record PlanStep =
  index :: int
  label :: string
  description :: string
  dependsOn :: "int list"
  toolHints :: "string list"
  status :: StepStatus

record Plan =
  plan_id :: string
  title :: string
  plan_description :: string
  constraints :: "(string \<times> string) list"
  steps :: "PlanStep list"
  estimatedTokens :: int
  estimatedCostUsd :: rat

datatype ResultStatus = Success | Failure

record StepResult =
  stepIndex :: int
  result_status :: ResultStatus
  nodeIds :: "string list option"
  result_error :: "string option"

datatype QuestionType = QText | QChoice | QNumber | QBoolean

record ClarificationQuestion =
  question_id :: string
  question :: string
  question_type :: QuestionType
  options :: "string list option"
  question_default :: "string option"
  required :: bool

datatype WorkflowState =
    Idle
  | Analyzing (userPrompt: string)
  | Clarifying (questions: "ClarificationQuestion list") (answers: "(string \<times> string) list")
  | Planning Plan
  | AwaitingApproval Plan
  | Executing Plan (currentStepIndex: int)
  | Completed Plan "StepResult list"
  | ErrorState string bool

section \<open>Workflow state machine (agentic/workflow-state-machine.ts)\<close>

datatype Phase =
  idle | analyzing | clarifying | planning | awaiting_approval | executing | completed | error

fun phase_of :: "WorkflowState \<Rightarrow> Phase" where
  "phase_of Idle = idle"
| "phase_of (Analyzing _) = analyzing"
| "phase_of (Clarifying _ _) = clarifying"
| "phase_of (Planning _) = planning"
| "phase_of (AwaitingApproval _) = awaiting_approval"
| "phase_of (Executing _ _) = executing"
| "phase_of (Completed _ _) = completed"
| "phase_of (ErrorState _ _) = error"

fun phase_name :: "Phase \<Rightarrow> string" where
  "phase_name idle = ''idle''"
| "phase_name analyzing = ''analyzing''"
| "phase_name clarifying = ''clarifying''"
| "phase_name planning = ''planning''"
| "phase_name awaiting_approval = ''awaiting_approval''"
| "phase_name executing = ''executing''"
| "phase_name completed = ''completed''"
| "phase_name error = ''error''"

text \<open>
  The only exception the class throws is the one of \<open>assertPhase\<close>; it carries the
  expected and the actual phase, which its message prints.
\<close>

datatype TransitionError = InvalidTransition (expected: Phase) (actual: Phase)

fun error_message :: "TransitionError \<Rightarrow> string" where
  "error_message (InvalidTransition e a) =
     ''Invalid state transition: expected '' @ [CHR 0x27] @ phase_name e @ [CHR 0x27] @
     '', got '' @ [CHR 0x27] @ phase_name a @ [CHR 0x27]"

text \<open>
  A listener is identified by a number (the identity of the function object); calling
  it is recorded in \<open>notified\<close>, in call order.
\<close>

record WorkflowStateMachine =
  wf_state :: WorkflowState
  listeners :: "nat list"
  notified :: "(nat \<times> WorkflowState) list"

definition new_machine :: WorkflowStateMachine where
  "new_machine = \<lparr>wf_state = Idle, listeners = [], notified = []\<rparr>"

definition phase :: "WorkflowStateMachine \<Rightarrow> Phase" where
  "phase m = phase_of (wf_state m)"

definition onStateChange :: "nat \<Rightarrow> WorkflowStateMachine \<Rightarrow> WorkflowStateMachine" where
  "onStateChange listener m = m\<lparr>listeners := listeners m @ [listener]\<rparr>"

definition unsubscribe :: "nat \<Rightarrow> WorkflowStateMachine \<Rightarrow> WorkflowStateMachine" where
  "unsubscribe listener m = m\<lparr>listeners := filter (\<lambda>l. l \<noteq> listener) (listeners m)\<rparr>"

definition assertPhase :: "Phase \<Rightarrow> WorkflowStateMachine \<Rightarrow> TransitionError option" where
  "assertPhase e m = (if phase m \<noteq> e then Some (InvalidTransition e (phase m)) else None)"

definition transition :: "WorkflowState \<Rightarrow> WorkflowStateMachine \<Rightarrow> WorkflowStateMachine" where
  "transition newState m =
     m\<lparr>wf_state := newState,
       notified := notified m @ map (\<lambda>l. (l, newState)) (listeners m)\<rparr>"

definition startAnalysis ::
  "string \<Rightarrow> WorkflowStateMachine \<Rightarrow> TransitionError + WorkflowStateMachine" where
  "startAnalysis prompt m =
     (case assertPhase idle m of Some e \<Rightarrow> Inl e
      | None \<Rightarrow> Inr (transition (Analyzing prompt) m))"

definition requestClarification ::
  "ClarificationQuestion list \<Rightarrow> WorkflowStateMachine \<Rightarrow> TransitionError + WorkflowStateMachine" where
  "requestClarification qs m =
     (case assertPhase analyzing m of Some e \<Rightarrow> Inl e
      | None \<Rightarrow> Inr (transition (Clarifying qs []) m))"

definition answerQuestion ::
  "string \<Rightarrow> string \<Rightarrow> WorkflowStateMachine \<Rightarrow> TransitionError + WorkflowStateMachine" where
  "answerQuestion questionId answer m =
     (case assertPhase clarifying m of Some e \<Rightarrow> Inl e
      | None \<Rightarrow>
          (case wf_state m of
             Clarifying qs ans \<Rightarrow>
               Inr (m\<lparr>wf_state := Clarifying qs (AList.update questionId answer ans)\<rparr>)
           | _ \<Rightarrow> Inr m))"

definition startPlanning ::
  "Plan \<Rightarrow> WorkflowStateMachine \<Rightarrow> TransitionError + WorkflowStateMachine" where
  "startPlanning plan m = Inr (transition (Planning plan) m)"

definition awaitApproval ::
  "Plan \<Rightarrow> WorkflowStateMachine \<Rightarrow> TransitionError + WorkflowStateMachine" where
  "awaitApproval plan m = Inr (transition (AwaitingApproval plan) m)"

definition startExecution ::
  "Plan \<Rightarrow> WorkflowStateMachine \<Rightarrow> TransitionError + WorkflowStateMachine" where
  "startExecution plan m =
     (case assertPhase awaiting_approval m of Some e \<Rightarrow> Inl e
      | None \<Rightarrow> Inr (transition (Executing plan 0) m))"

definition advanceStep ::
  "int \<Rightarrow> WorkflowStateMachine \<Rightarrow> TransitionError + WorkflowStateMachine" where
  "advanceStep stepIdx m =
     (case assertPhase executing m of Some e \<Rightarrow> Inl e
      | None \<Rightarrow>
          (case wf_state m of
             Executing plan _ \<Rightarrow> Inr (transition (Executing plan stepIdx) m)
           | _ \<Rightarrow> Inr m))"

definition complete ::
  "Plan \<Rightarrow> StepResult list \<Rightarrow> WorkflowStateMachine \<Rightarrow> TransitionError + WorkflowStateMachine" where
  "complete plan results m = Inr (transition (Completed plan results) m)"

definition setError ::
  "string \<Rightarrow> bool \<Rightarrow> WorkflowStateMachine \<Rightarrow> TransitionError + WorkflowStateMachine" where
  "setError err recoverable m = Inr (transition (ErrorState err recoverable) m)"

definition reset :: "WorkflowStateMachine \<Rightarrow> TransitionError + WorkflowStateMachine" where
  "reset m = Inr (transition Idle m)"

text \<open>The plan of the repository's state machine tests: no steps.\<close>

definition empty_plan :: Plan where
  "empty_plan = \<lparr>plan_id = ''p1'', title = ''Test'', plan_description = [], constraints = [],
     steps = [], estimatedTokens = 1000, estimatedCostUsd = 1 / 100\<rparr>"

text \<open>The ten mutating operations, with their arguments.\<close>

datatype Operation =
    StartAnalysis string
  | RequestClarification "ClarificationQuestion list"
  | AnswerQuestion string string
  | StartPlanning Plan
  | AwaitApproval Plan
  | StartExecution Plan
  | AdvanceStep int
  | Complete Plan "StepResult list"
  | SetError string bool
  | Reset

fun run_op :: "Operation \<Rightarrow> WorkflowStateMachine \<Rightarrow> TransitionError + WorkflowStateMachine" where
  "run_op (StartAnalysis p) m = startAnalysis p m"
| "run_op (RequestClarification qs) m = requestClarification qs m"
| "run_op (AnswerQuestion q a) m = answerQuestion q a m"
| "run_op (StartPlanning p) m = startPlanning p m"
| "run_op (AwaitApproval p) m = awaitApproval p m"
| "run_op (StartExecution p) m = startExecution p m"
| "run_op (AdvanceStep i) m = advanceStep i m"
| "run_op (Complete p rs) m = complete p rs m"
| "run_op (SetError e r) m = setError e r m"
| "run_op Reset m = reset m"

text \<open>
  The phase an operation asserts before it acts (\<open>None\<close>: the operation has no
  \<open>assertPhase\<close> call), and the phase it leaves the machine in when it succeeds.
\<close>

fun guard_of :: "Operation \<Rightarrow> Phase option" where
  "guard_of (StartAnalysis _) = Some idle"
| "guard_of (RequestClarification _) = Some analyzing"
| "guard_of (AnswerQuestion _ _) = Some clarifying"
| "guard_of (StartExecution _) = Some awaiting_approval"
| "guard_of (AdvanceStep _) = Some executing"
| "guard_of _ = None"

fun target_of :: "Operation \<Rightarrow> Phase" where
  "target_of (StartAnalysis _) = analyzing"
| "target_of (RequestClarification _) = clarifying"
| "target_of (AnswerQuestion _ _) = clarifying"
| "target_of (StartPlanning _) = planning"
| "target_of (AwaitApproval _) = awaiting_approval"
| "target_of (StartExecution _) = executing"
| "target_of (AdvanceStep _) = executing"
| "target_of (Complete _ _) = completed"
| "target_of (SetError _ _) = error"
| "target_of Reset = idle"

lemma phase_transition: "phase (transition s m) = phase_of s"
  by (simp add: phase_def transition_def)

text \<open>
  C1 (as the code has it). Every operation either succeeds and leaves the machine in the
  operation's target phase, or fails with the invalid-transition error that carries the
  expected and the actual phase. \<open>startAnalysis\<close>, \<open>requestClarification\<close>,
  \<open>answerQuestion\<close>, \<open>startExecution\<close> and \<open>advanceStep\<close> succeed exactly in their
  predecessor phase; \<open>startPlanning\<close>, \<open>awaitApproval\<close>, \<open>complete\<close>, \<open>setError\<close> and
  \<open>reset\<close> assert nothing and succeed from every phase.
\<close>

theorem workflow_operation_outcome:
  "(case guard_of op of
      None \<Rightarrow> (\<exists>m'. run_op op m = Inr m' \<and> phase m' = target_of op)
    | Some e \<Rightarrow>
        (if phase m = e then (\<exists>m'. run_op op m = Inr m' \<and> phase m' = target_of op)
         else run_op op m = Inl (InvalidTransition e (phase m))))"
  by (cases op; cases "wf_state m")
     (simp_all add: startAnalysis_def requestClarification_def answerQuestion_def
        startPlanning_def awaitApproval_def startExecution_def advanceStep_def complete_def
        setError_def reset_def assertPhase_def phase_transition, simp_all add: phase_def)

theorem workflow_operation_outcome_witness:
  "run_op (RequestClarification []) new_machine = Inl (InvalidTransition analyzing idle)
   \<and> error_message (InvalidTransition analyzing idle) =
       ''Invalid state transition: expected '' @ [CHR 0x27] @ ''analyzing'' @ [CHR 0x27] @
       '', got '' @ [CHR 0x27] @ ''idle'' @ [CHR 0x27]"
  using workflow_operation_outcome [of "RequestClarification []" new_machine]
  by (simp add: phase_def new_machine_def)

text \<open>
  C1 as stated fails: \<open>awaitApproval\<close> is not \<open>reset\<close> or \<open>setError\<close>, yet it succeeds in
  phase idle, which is not a predecessor of awaiting approval in the pipeline (the
  repository's own test calls it on a fresh machine).
\<close>

theorem awaitApproval_from_idle_succeeds:
  "phase new_machine = idle \<and>
   run_op (AwaitApproval empty_plan) new_machine =
     Inr \<lparr>wf_state = AwaitingApproval empty_plan, listeners = [], notified = []\<rparr> \<and>
   guard_of (AwaitApproval empty_plan) = None"
  by (simp add: awaitApproval_def transition_def phase_def new_machine_def)

section \<open>Tool dispatch table (tool-executor.ts)\<close>

text \<open>
  Tool inputs and outputs are JSON values. An object is the list of its own enumerable
  properties in \<open>Object.entries\<close> order, and its prototype is \<open>Object.prototype\<close>, as
  for every object that \<open>JSON.parse\<close> or an object literal creates. The payload of a
  number plays no part in validation and is an integer here.
\<close>

datatype json =
    JNull
  | JBool bool
  | JNum int
  | JStr string
  | JArr "json list"
  | JObj "(string \<times> json) list"

fun js_typeof :: "json \<Rightarrow> string" where
  "js_typeof JNull = ''object''"
| "js_typeof (JBool _) = ''boolean''"
| "js_typeof (JNum _) = ''number''"
| "js_typeof (JStr _) = ''string''"
| "js_typeof (JArr _) = ''object''"
| "js_typeof (JObj _) = ''object''"

fun isArray :: "json \<Rightarrow> bool" where
  "isArray (JArr _) = True"
| "isArray _ = False"

fun js_join :: "string \<Rightarrow> string list \<Rightarrow> string" where
  "js_join sep [] = []"
| "js_join sep [x] = x"
| "js_join sep (x # y # ys) = x @ sep @ js_join sep (y # ys)"

text \<open>
  \<open>field in input\<close> looks the name up among the object's own properties and then along
  its prototype chain, so it holds of every property name of \<open>Object.prototype\<close> whatever
  the object's own properties are.
\<close>

definition object_prototype_names :: "string list" where
  "object_prototype_names =
     [''constructor'', ''__defineGetter__'', ''__defineSetter__'', ''hasOwnProperty'',
      ''__lookupGetter__'', ''__lookupSetter__'', ''isPrototypeOf'', ''propertyIsEnumerable'',
      ''toString'', ''valueOf'', ''__proto__'', ''toLocaleString'']"

definition js_in :: "string \<Rightarrow> (string \<times> json) list \<Rightarrow> bool" where
  "js_in field obj = (field \<in> fst ` set obj \<or> field \<in> set object_prototype_names)"

text \<open>
  The schema is read through the casts of \<open>validateToolInput\<close>: \<open>required\<close> as an
  optional list of names, \<open>properties\<close> as an optional table of property schemas, of
  which only \<open>type\<close> is read. \<open>properties[key]\<close> of a key that the table does not hold
  itself is \<open>undefined\<close>, or a member of \<open>Object.prototype\<close>, none of which has a
  \<open>type\<close>; in both cases no check is made for the key.
\<close>

record PropSchema =
  prop_type :: "string option"

record ToolSchema =
  schema_required :: "string list option"
  schema_properties :: "(string \<times> PropSchema) list option"

definition field_errors :: "string \<Rightarrow> string option \<Rightarrow> json \<Rightarrow> string list" where
  "field_errors key expectedType v =
     (if expectedType = Some ''string'' \<and> js_typeof v \<noteq> ''string''
        then [''Field '' @ [CHR 0x27] @ key @ [CHR 0x27] @ '' must be a string'']
      else if expectedType = Some ''number'' \<and> js_typeof v \<noteq> ''number''
        then [''Field '' @ [CHR 0x27] @ key @ [CHR 0x27] @ '' must be a number'']
      else if expectedType = Some ''array'' \<and> \<not> isArray v
        then [''Field '' @ [CHR 0x27] @ key @ [CHR 0x27] @ '' must be an array'']
      else if expectedType = Some ''object'' \<and> (js_typeof v \<noteq> ''object'' \<or> v = JNull)
        then [''Field '' @ [CHR 0x27] @ key @ [CHR 0x27] @ '' must be an object'']
      else [])"

definition validateToolInput :: "(string \<times> json) list \<Rightarrow> ToolSchema \<Rightarrow> string list" where
  "validateToolInput input schema =
     (let required = (case schema_required schema of None \<Rightarrow> [] | Some r \<Rightarrow> r);
          properties = (case schema_properties schema of None \<Rightarrow> [] | Some ps \<Rightarrow> ps);
          missing = concat (map (\<lambda>field.
                       if \<not> js_in field input
                       then [''Missing required field: '' @ field] else []) required);
          mistyped = concat (map (\<lambda>(key, v).
                       case map_of properties key of
                         None \<Rightarrow> []
                       | Some propSchema \<Rightarrow> field_errors key (prop_type propSchema) v) input)
      in missing @ mistyped)"

definition valid :: "(string \<times> json) list \<Rightarrow> ToolSchema \<Rightarrow> bool" where
  "valid input schema = (validateToolInput input schema = [])"

text \<open>
  What an executor throws, and \<open>String(error)\<close> of it: an \<open>Error\<close> object prints its
  name and message, any other thrown value is represented by its string form.
\<close>

datatype Thrown = JsError (err_name: string) (err_message: string) | ThrownValue string

fun js_String :: "Thrown \<Rightarrow> string" where
  "js_String (JsError n m) = (if n = [] then m else if m = [] then n else n @ '': '' @ m)"
| "js_String (ThrownValue s) = s"

text \<open>
  A handler is its schema and its executor; the executor either throws or returns a
  value (\<open>None\<close> for \<open>undefined\<close>).
\<close>

record ToolHandler =
  handler_schema :: ToolSchema
  handler_execute :: "(string \<times> json) list \<Rightarrow> Thrown + json option"

record ToolCall =
  call_id :: string
  call_name :: string
  call_input :: "(string \<times> json) list"

record ToolResult =
  success :: bool
  data :: "json option"
  tool_error :: "string option"

type_synonym ToolExecutor = "(string \<times> ToolHandler) list"

definition registerHandler :: "string \<Rightarrow> ToolHandler \<Rightarrow> ToolExecutor \<Rightarrow> ToolExecutor" where
  "registerHandler name handler handlers = AList.update name handler handlers"

definition execute :: "ToolExecutor \<Rightarrow> ToolCall \<Rightarrow> ToolResult" where
  "execute handlers toolCall =
     (case map_of handlers (call_name toolCall) of
        None \<Rightarrow>
          \<lparr>success = False, data = None,
           tool_error = Some (''Unknown tool: '' @ call_name toolCall)\<rparr>
      | Some handler \<Rightarrow>
          (let errors = validateToolInput (call_input toolCall) (handler_schema handler) in
           if errors \<noteq> []
           then \<lparr>success = False, data = None, tool_error = Some (js_join '', '' errors)\<rparr>
           else (case handler_execute handler (call_input toolCall) of
                   Inr result \<Rightarrow> \<lparr>success = True, data = result, tool_error = None\<rparr>
                 | Inl err \<Rightarrow>
                     \<lparr>success = False, data = None, tool_error = Some (js_String err)\<rparr>)))"

text \<open>
  The runtime kind a declared type accepts: a string, a number, an array, and for
  \<open>object\<close> any non-null value whose \<open>typeof\<close> is object (a plain object or an array).
  Any other declared type, or none, accepts every value.
\<close>

fun kind_matches :: "string option \<Rightarrow> json \<Rightarrow> bool" where
  "kind_matches (Some t) v =
     (if t = ''string'' then (case v of JStr _ \<Rightarrow> True | _ \<Rightarrow> False)
      else if t = ''number'' then (case v of JNum _ \<Rightarrow> True | _ \<Rightarrow> False)
      else if t = ''array'' then (case v of JArr _ \<Rightarrow> True | _ \<Rightarrow> False)
      else if t = ''object'' then (case v of JObj _ \<Rightarrow> True | JArr _ \<Rightarrow> True | _ \<Rightarrow> False)
      else True)"
| "kind_matches None v = True"

text \<open>The handler and the calls of the repository's executor test.\<close>

definition double_handler :: ToolHandler where
  "double_handler =
     \<lparr>handler_schema =
        \<lparr>schema_required = Some [''value''],
         schema_properties = Some [(''value'', \<lparr>prop_type = Some ''number''\<rparr>)]\<rparr>,
      handler_execute = (\<lambda>input.
        case map_of input ''value'' of
          Some (JNum n) \<Rightarrow> Inr (Some (JObj [(''doubled'', JNum (n * 2))]))
        | _ \<Rightarrow> Inl (JsError ''Error'' ''CAD engine error''))\<rparr>"

definition failing_handler :: ToolHandler where
  "failing_handler =
     \<lparr>handler_schema = \<lparr>schema_required = None, schema_properties = Some []\<rparr>,
      handler_execute = (\<lambda>input. Inl (JsError ''Error'' ''CAD engine error''))\<rparr>"

definition test_executor :: ToolExecutor where
  "test_executor = registerHandler ''failing'' failing_handler
                     (registerHandler ''double'' double_handler [])"

lemma field_errors_Nil: "field_errors key t v = [] \<longleftrightarrow> kind_matches t v"
  by (cases t; cases v) (auto simp: field_errors_def)

lemma valid_iff:
  "valid input schema \<longleftrightarrow>
     (\<forall>field \<in> set (case schema_required schema of None \<Rightarrow> [] | Some r \<Rightarrow> r).
        js_in field input) \<and>
     (\<forall>(key, v) \<in> set input.
        case map_of (case schema_properties schema of None \<Rightarrow> [] | Some ps \<Rightarrow> ps) key of
          None \<Rightarrow> True
        | Some propSchema \<Rightarrow> kind_matches (prop_type propSchema) v)"
  by (auto simp: valid_def validateToolInput_def Let_def field_errors_Nil split: option.splits)

text \<open>
  \<open>execute\<close> always returns a result value. With no handler bound to the call's name
  the result is a failure with the unknown-tool message; with a handler whose schema the
  input fails, a failure listing the validation errors; with a valid input and a
  throwing executor, a failure carrying the stringified fault; otherwise a success with
  the executor's return value. The input is valid exactly when \<open>field in input\<close> holds
  of every required field and every field that the schema's property set declares
  matches its declared type; fields the property set does not declare are not checked.
\<close>

lemma execute_outcomes:
  "(map_of handlers (call_name c) = None \<longrightarrow>
      execute handlers c =
        \<lparr>success = False, data = None, tool_error = Some (''Unknown tool: '' @ call_name c)\<rparr>) \<and>
   (\<forall>h. map_of handlers (call_name c) = Some h \<longrightarrow>
      (\<not> valid (call_input c) (handler_schema h) \<longrightarrow>
         execute handlers c =
           \<lparr>success = False, data = None,
            tool_error = Some (js_join '', '' (validateToolInput (call_input c) (handler_schema h)))\<rparr>) \<and>
      (valid (call_input c) (handler_schema h) \<longrightarrow>
         (\<forall>err. handler_execute h (call_input c) = Inl err \<longrightarrow>
            execute handlers c =
              \<lparr>success = False, data = None, tool_error = Some (js_String err)\<rparr>) \<and>
         (\<forall>result. handler_execute h (call_input c) = Inr result \<longrightarrow>
            execute handlers c = \<lparr>success = True, data = result, tool_error = None\<rparr>)) \<and>
      (valid (call_input c) (handler_schema h) \<longleftrightarrow>
         (\<forall>field \<in> set (case schema_required (handler_schema h) of None \<Rightarrow> [] | Some r \<Rightarrow> r).
            field \<in> fst ` set (call_input c) \<or> field \<in> set object_prototype_names) \<and>
         (\<forall>(key, v) \<in> set (call_input c).
            case map_of (case schema_properties (handler_schema h) of None \<Rightarrow> [] | Some ps \<Rightarrow> ps) key of
              None \<Rightarrow> True
            | Some propSchema \<Rightarrow> kind_matches (prop_type propSchema) v)))"
  using valid_iff by (auto simp: execute_def Let_def valid_def js_in_def)

lemma test_executor_lookup:
  "map_of test_executor ''double'' = Some double_handler"
  "map_of test_executor ''failing'' = Some failing_handler"
  "map_of test_executor ''nonexistent'' = None"
  by (simp_all add: test_executor_def registerHandler_def)

text \<open>The four outcomes on the calls of the repository's executor test.\<close>

lemma execute_outcomes_test:
  "execute test_executor
     \<lparr>call_id = ''call_1'', call_name = ''nonexistent'', call_input = []\<rparr> =
     \<lparr>success = False, data = None, tool_error = Some ''Unknown tool: nonexistent''\<rparr> \<and>
   execute test_executor
     \<lparr>call_id = ''call_1'', call_name = ''double'', call_input = []\<rparr> =
     \<lparr>success = False, data = None, tool_error = Some ''Missing required field: value''\<rparr> \<and>
   execute test_executor
     \<lparr>call_id = ''call_1'', call_name = ''double'', call_input = [(''value'', JStr ''21'')]\<rparr> =
     \<lparr>success = False, data = None, tool_error = Some ''Field 'value' must be a number''\<rparr> \<and>
   execute test_executor
     \<lparr>call_id = ''call_1'', call_name = ''failing'', call_input = [(''extra'', JNull)]\<rparr> =
     \<lparr>success = False, data = None, tool_error = Some ''Error: CAD engine error''\<rparr> \<and>
   execute test_executor
     \<lparr>call_id = ''call_1'', call_name = ''double'',
      call_input = [(''value'', JNum 21), (''extra'', JStr ''ok'')]\<rparr> =
     \<lparr>success = True, data = Some (JObj [(''doubled'', JNum 42)]), tool_error = None\<rparr>"
  by (simp add: execute_def test_executor_lookup validateToolInput_def double_handler_def
      failing_handler_def field_errors_def js_in_def object_prototype_names_def)

text \<open>
  A handler whose schema requires the field \<open>toString\<close>, and a call of it with the empty
  input.
\<close>

definition describe_handler :: ToolHandler where
  "describe_handler =
     \<lparr>handler_schema =
        \<lparr>schema_required = Some [''toString''],
         schema_properties = Some [(''toString'', \<lparr>prop_type = Some ''string''\<rparr>)]\<rparr>,
      handler_execute = (\<lambda>input. Inr (Some (JStr ''described'')))\<rparr>"

definition describe_call :: ToolCall where
  "describe_call = \<lparr>call_id = ''call_1'', call_name = ''describe'', call_input = []\<rparr>"

text \<open>
  C5. The claim has a call whose input lacks a required field end in a failure that
  lists the validation error, and \<open>validateToolInput\<close> is documented to check the
  required fields and reports \<open>Missing required field\<close> for them. Its test is
  \<open>field in input\<close>, which also finds the names every object inherits from
  \<open>Object.prototype\<close>, where the type checks that follow go over the input's own
  properties only. So a required field of such a name is never missing: for the schema
  that requires \<open>toString\<close> and the empty input, which holds no field at all,
  \<open>validateToolInput\<close> reports no error, and \<open>execute\<close> runs the executor on the empty
  input and returns its value as a success.
\<close>

theorem execute_accepts_missing_inherited_field:
  "call_input describe_call = [] \<and>
   schema_required (handler_schema describe_handler) = Some [''toString''] \<and>
   validateToolInput (call_input describe_call) (handler_schema describe_handler) = [] \<and>
   execute (registerHandler ''describe'' describe_handler []) describe_call =
     \<lparr>success = True, data = Some (JStr ''described''), tool_error = None\<rparr>"
  by (simp add: execute_def registerHandler_def validateToolInput_def describe_handler_def
      describe_call_def js_in_def object_prototype_names_def)


section \<open>Lexical estimator and cosine similarity (chili-copilot-rag/utils.ts)\<close>

text \<open>
  \<open>estimateTokens\<close>: zero for the empty string, else the length divided by four, rounded
  up. A string is the list of its code units.
\<close>

definition estimateTokens :: "string \<Rightarrow> int" where
  "estimateTokens text = (if text = [] then 0 else (int (length text) + 3) div 4)"

text \<open>
  Numbers are IEEE 754 doubles. A finite double is the real number it denotes, and each
  arithmetic operation of the source (\<open>+\<close>, \<open>*\<close>, \<open>/\<close>, \<open>Math.sqrt\<close>) is the exact
  operation followed by \<open>round_double\<close>, the rounding to the nearest double: 53
  significant bits, ties to the even significand, and below 2 to the power -1022 the
  fixed spacing of the subnormal numbers. \<open>rne\<close> rounds to the nearest integer, ties to
  even. Infinity and NaN are not numbers of the model.
\<close>

definition rne :: "real \<Rightarrow> int" where
  "rne x = (let f = \<lfloor>x\<rfloor>; d = x - of_int f in
            if d < 1 / 2 then f else if 1 / 2 < d then f + 1 else if even f then f else f + 1)"

definition round_double :: "real \<Rightarrow> real" where
  "round_double x =
     (if x = 0 then 0
      else (let e = max \<lfloor>log 2 \<bar>x\<bar>\<rfloor> (- 1022); ulp = 2 powi (e - 52)
            in of_int (rne (x / ulp)) * ulp))"

text \<open>
  Vectors are \<open>Float32Array\<close>s, here the lists of their elements' values; reading an
  element gives its value exactly. The loop of \<open>cosineSimilarity\<close> carries
  \<open>dotProduct\<close>, \<open>normA\<close> and \<open>normB\<close>.
\<close>

datatype StoreError =
    VectorDimensionsMismatch nat nat
  | EmbeddingDimensionsMismatch int nat
  | QueryDimensionsMismatch int nat

fun cosineLoop :: "real list \<Rightarrow> real list \<Rightarrow> real \<times> real \<times> real \<Rightarrow> real \<times> real \<times> real" where
  "cosineLoop (x # a) (y # b) (dotProduct, normA, normB) =
     cosineLoop a b
       (round_double (dotProduct + round_double (x * y)),
        round_double (normA + round_double (x * x)),
        round_double (normB + round_double (y * y)))"
| "cosineLoop a b acc = acc"

definition cosineSimilarity :: "real list \<Rightarrow> real list \<Rightarrow> StoreError + real" where
  "cosineSimilarity a b =
     (if length a \<noteq> length b then Inl (VectorDimensionsMismatch (length a) (length b))
      else
        (case cosineLoop a b (0, 0, 0) of
           (dotProduct, normA, normB) \<Rightarrow>
             (let denominator = round_double (round_double (sqrt normA) * round_double (sqrt normB))
              in if denominator = 0 then Inr 0
                 else Inr (round_double (dotProduct / denominator)))))"

section \<open>Similarity index (chili-copilot-rag/in-memory-vector-store.ts)\<close>

record DocumentMetadata =
  source :: string
  nodeId :: "string option"
  filePath :: "string option"
  chunkIndex :: "int option"
  timestamp :: int

record VectorDocument =
  doc_id :: string
  embedding :: "real list"
  content :: string
  metadata :: DocumentMetadata

record SearchResult =
  document :: VectorDocument
  score :: real

record MetadataFilter =
  filter_source :: "string option"
  filter_nodeId :: "string option"

record InMemoryVectorStore =
  store_name :: string
  dimensions :: int
  documents :: "(string \<times> VectorDocument) list"

definition new_store :: "string \<Rightarrow> int \<Rightarrow> InMemoryVectorStore" where
  "new_store name dims = \<lparr>store_name = name, dimensions = dims, documents = []\<rparr>"

definition count :: "InMemoryVectorStore \<Rightarrow> nat" where
  "count st = length (documents st)"

text \<open>
  \<open>upsert\<close> returns the store as the call leaves it, and the exception when it throws:
  the documents set before the throw stay in the map.
\<close>

fun upsert :: "VectorDocument list \<Rightarrow> InMemoryVectorStore \<Rightarrow> InMemoryVectorStore \<times> StoreError option" where
  "upsert [] st = (st, None)"
| "upsert (doc # docs) st =
     (if int (length (embedding doc)) \<noteq> dimensions st
      then (st, Some (EmbeddingDimensionsMismatch (dimensions st) (length (embedding doc))))
      else upsert docs (st\<lparr>documents := AList.update (doc_id doc) doc (documents st)\<rparr>))"

fun remove :: "string list \<Rightarrow> InMemoryVectorStore \<Rightarrow> InMemoryVectorStore" where
  "remove [] st = st"
| "remove (i # ids) st = remove ids (st\<lparr>documents := AList.delete i (documents st)\<rparr>)"

text \<open>
  A filter field takes part only when it is truthy (present and not the empty string).
\<close>

definition truthy :: "string option \<Rightarrow> bool" where
  "truthy s = (case s of None \<Rightarrow> False | Some t \<Rightarrow> t \<noteq> [])"

definition passes :: "MetadataFilter option \<Rightarrow> VectorDocument \<Rightarrow> bool" where
  "passes filt doc =
     (case filt of
        None \<Rightarrow> True
      | Some f \<Rightarrow>
          \<not> (truthy (filter_source f) \<and> Some (source (metadata doc)) \<noteq> filter_source f) \<and>
          \<not> (truthy (filter_nodeId f) \<and> nodeId (metadata doc) \<noteq> filter_nodeId f))"

fun scoreDocuments ::
  "real list \<Rightarrow> MetadataFilter option \<Rightarrow> VectorDocument list \<Rightarrow> StoreError + SearchResult list" where
  "scoreDocuments query filt [] = Inr []"
| "scoreDocuments query filt (doc # docs) =
     (if \<not> passes filt doc then scoreDocuments query filt docs
      else (case cosineSimilarity query (embedding doc) of
              Inl e \<Rightarrow> Inl e
            | Inr s \<Rightarrow>
                (case scoreDocuments query filt docs of
                   Inl e \<Rightarrow> Inl e
                 | Inr results \<Rightarrow> Inr (\<lparr>document = doc, score = s\<rparr> # results))))"

text \<open>\<open>xs.slice(0, k)\<close>: a negative \<open>k\<close> counts from the end.\<close>

definition slice0 :: "'a list \<Rightarrow> int \<Rightarrow> 'a list" where
  "slice0 xs k = (if k < 0 then take (nat (int (length xs) + k)) xs else take (nat k) xs)"

text \<open>
  \<open>results.sort((a, b) => b.score - a.score)\<close> is a stable sort by descending score:
  the rounded difference of two doubles has the sign of their exact difference.
\<close>

definition search ::
  "InMemoryVectorStore \<Rightarrow> real list \<Rightarrow> int \<Rightarrow> MetadataFilter option \<Rightarrow> StoreError + SearchResult list" where
  "search st query topK filt =
     (if int (length query) \<noteq> dimensions st
      then Inl (QueryDimensionsMismatch (dimensions st) (length query))
      else (case scoreDocuments query filt (map snd (documents st)) of
              Inl e \<Rightarrow> Inl e
            | Inr results \<Rightarrow> Inr (slice0 (sort_key (\<lambda>r. - score r) results) topK)))"

text \<open>
  The three documents of the repository's search test, a fourth of two dimensions, and a
  document of another source that belongs to a scene node.
\<close>

definition test_doc :: "string \<Rightarrow> real list \<Rightarrow> string \<Rightarrow> VectorDocument" where
  "test_doc i e c =
     \<lparr>doc_id = i, embedding = e, content = c,
      metadata = \<lparr>source = ''scene_node'', nodeId = None, filePath = None,
                  chunkIndex = None, timestamp = 0\<rparr>\<rparr>"

definition doc_a :: VectorDocument where "doc_a = test_doc ''a'' [1, 0, 0] ''x-axis''"
definition doc_b :: VectorDocument where "doc_b = test_doc ''b'' [0, 1, 0] ''y-axis''"
definition doc_c :: VectorDocument where "doc_c = test_doc ''c'' [0, 0, 1] ''z-axis''"
definition doc_short :: VectorDocument where "doc_short = test_doc ''d'' [1, 0] ''short''"


text \<open>
  Every stored embedding has the store's dimensionality: \<open>upsert\<close> checks it before it
  stores a document.
\<close>

definition wf_store :: "InMemoryVectorStore \<Rightarrow> bool" where
  "wf_store st = (\<forall>d \<in> snd ` set (documents st). int (length (embedding d)) = dimensions st)"

lemma upsert_prefix:
  "\<forall>d \<in> set pre. int (length (embedding d)) = dimensions st \<Longrightarrow>
   upsert (pre @ rest) st =
     upsert rest (st\<lparr>documents := fold (\<lambda>d m. AList.update (doc_id d) d m) pre (documents st)\<rparr>)"
  by (induction pre arbitrary: st) simp_all

lemma map_of_fold_update_some:
  "d \<in> set pre \<Longrightarrow>
   \<exists>d' \<in> set pre. doc_id d' = doc_id d \<and>
     map_of (fold (\<lambda>d m. AList.update (doc_id d) d m) pre m) (doc_id d) = Some d'"
proof (induction pre rule: rev_induct)
  case Nil
  then show ?case by simp
next
  case (snoc x xs)
  show ?case
  proof (cases "doc_id x = doc_id d")
    case True
    then show ?thesis by (auto simp: update_conv')
  next
    case False
    with snoc.prems have "d \<in> set xs" by auto
    from snoc.IH[OF this] False show ?thesis by (auto simp: update_conv')
  qed
qed

lemma map_of_fold_update_distinct:
  "distinct (map doc_id pre) \<Longrightarrow> d \<in> set pre \<Longrightarrow>
   map_of (fold (\<lambda>d m. AList.update (doc_id d) d m) pre m) (doc_id d) = Some d"
proof (induction pre rule: rev_induct)
  case Nil
  then show ?case by simp
next
  case (snoc x xs)
  show ?case
  proof (cases "d = x")
    case True
    then show ?thesis by (simp add: update_conv')
  next
    case False
    with snoc.prems have "d \<in> set xs" "doc_id x \<noteq> doc_id d" by auto
    with snoc show ?thesis by (simp add: update_conv')
  qed
qed

text \<open>
  C10. \<open>upsert\<close> is not atomic: when the documents before position k of the batch have
  the store's dimensionality and the k-th has not, the call throws the dimension error,
  and the store it leaves behind maps the id of every document before position k to a
  document of that prefix with that id (to the document itself when the prefix reuses no
  id).
\<close>

theorem upsert_not_atomic:
  assumes "\<forall>d \<in> set pre. int (length (embedding d)) = dimensions st"
    and "int (length (embedding bad)) \<noteq> dimensions st"
  shows "\<exists>st'. upsert (pre @ bad # post) st =
            (st', Some (EmbeddingDimensionsMismatch (dimensions st) (length (embedding bad)))) \<and>
          (\<forall>d \<in> set pre. \<exists>d' \<in> set pre. doc_id d' = doc_id d \<and>
              map_of (documents st') (doc_id d) = Some d') \<and>
          (distinct (map doc_id pre) \<longrightarrow>
             (\<forall>d \<in> set pre. map_of (documents st') (doc_id d) = Some d))"
proof -
  let ?st' = "st\<lparr>documents := fold (\<lambda>d m. AList.update (doc_id d) d m) pre (documents st)\<rparr>"
  have "upsert (pre @ bad # post) st =
      (?st', Some (EmbeddingDimensionsMismatch (dimensions st) (length (embedding bad))))"
    using assms by (simp add: upsert_prefix)
  moreover have "\<forall>d \<in> set pre. \<exists>d' \<in> set pre. doc_id d' = doc_id d \<and>
      map_of (documents ?st') (doc_id d) = Some d'"
    by (simp add: map_of_fold_update_some)
  moreover have "distinct (map doc_id pre) \<longrightarrow>
      (\<forall>d \<in> set pre. map_of (documents ?st') (doc_id d) = Some d)"
    by (simp add: map_of_fold_update_distinct)
  ultimately show ?thesis by blast
qed

theorem upsert_not_atomic_witness:
  "upsert [doc_a, doc_b, doc_short, doc_c] (new_store ''test'' 3) =
     (\<lparr>store_name = ''test'', dimensions = 3, documents = [(''a'', doc_a), (''b'', doc_b)]\<rparr>,
      Some (EmbeddingDimensionsMismatch 3 2))"
  using upsert_not_atomic [of "[doc_a, doc_b]" "new_store ''test'' 3" doc_short "[doc_c]"]
  by (simp add: new_store_def doc_a_def doc_b_def doc_short_def test_doc_def)




lemma round_double_0: "round_double 0 = 0"
  by (simp add: round_double_def)




text \<open>
  The rounding of a number between two consecutive powers of two, and of a square root.
\<close>

lemma floor_log2:
  assumes "2 powi e \<le> x" "x < 2 powi (e + 1)"
  shows "\<lfloor>log 2 x\<rfloor> = e"
proof -
  have pos: "0 < x" using assms(1) by (smt (verit) zero_less_power_int)
  have 1: "(2::real) powr real_of_int e = 2 powi e" by (rule powr_real_of_int') simp_all
  have 2: "(2::real) powr real_of_int (e + 1) = 2 powi (e + 1)" by (rule powr_real_of_int') simp_all
  have "2 powr real_of_int e \<le> x \<and> x < 2 powr real_of_int (e + 1)"
    unfolding 1 2 using assms by simp
  then show ?thesis using floor_log_eq_powr_iff[of x 2 e] pos by simp
qed

lemma rne_nearest: "of_int n - 1 / 2 < x \<Longrightarrow> x < of_int n + 1 / 2 \<Longrightarrow> rne x = n"
proof -
  assume a: "of_int n - 1 / 2 < x" "x < of_int n + 1 / 2"
  then have "\<lfloor>x\<rfloor> = n \<or> \<lfloor>x\<rfloor> = n - 1" by linarith
  then show ?thesis
  proof
    assume "\<lfloor>x\<rfloor> = n"
    then show ?thesis using a by (simp add: rne_def Let_def)
  next
    assume "\<lfloor>x\<rfloor> = n - 1"
    then show ?thesis using a by (simp add: rne_def Let_def)
  qed
qed

lemma round_double_nearest:
  assumes "2 powi e \<le> \<bar>x\<bar>" "\<bar>x\<bar> < 2 powi (e + 1)" "- 1022 \<le> e"
    and "of_int n - 1 / 2 < x / 2 powi (e - 52)" "x / 2 powi (e - 52) < of_int n + 1 / 2"
  shows "round_double x = of_int n * 2 powi (e - 52)"
proof -
  have "x \<noteq> 0" using assms(1) by (smt (verit) zero_less_power_int)
  then show ?thesis using floor_log2[OF assms(1,2)] assms(3) rne_nearest[OF assms(4,5)]
    by (simp add: round_double_def Let_def)
qed

lemma round_double_exact:
  assumes "2 powi e \<le> \<bar>x\<bar>" "\<bar>x\<bar> < 2 powi (e + 1)" "- 1022 \<le> e"
    and "x / 2 powi (e - 52) = of_int n"
  shows "round_double x = x"
proof -
  have "round_double x = of_int n * 2 powi (e - 52)"
    using assms by (intro round_double_nearest) simp_all
  also have "\<dots> = x" using assms(4)[symmetric] by simp
  finally show ?thesis .
qed

lemma round_double_small:
  "round_double 1 = 1" "round_double 2 = 2" "round_double 3 = 3" "round_double 6 = 6"
  "round_double 9 = 9" "round_double 18 = 18"
  using round_double_exact[of 0 1 "2 ^ 52"] round_double_exact[of 1 2 "2 ^ 52"]
    round_double_exact[of 1 3 "3 * 2 ^ 51"] round_double_exact[of 2 6 "3 * 2 ^ 51"]
    round_double_exact[of 3 9 "9 * 2 ^ 49"] round_double_exact[of 4 18 "9 * 2 ^ 49"]
  by (simp_all add: power_int_minus)

lemma round_double_sqrt:
  assumes "2 powi e \<le> c" "c < 2 powi (e + 1)" "- 1022 \<le> e"
    and "((of_int n - 1 / 2) * 2 powi (e - 52))\<^sup>2 < x"
    and "x < ((of_int n + 1 / 2) * 2 powi (e - 52))\<^sup>2"
    and "0 < n" "c = sqrt x"
  shows "round_double (sqrt x) = of_int n * 2 powi (e - 52)"
proof -
  have p: "(0::real) < 2 powi (e - 52)" by simp
  have "(of_int n - 1 / 2) * 2 powi (e - 52) < sqrt x" using assms(4) by (rule real_less_rsqrt)
  then have lo: "of_int n - 1 / 2 < sqrt x / 2 powi (e - 52)" using p by (simp add: field_simps)
  have "(0::real) \<le> (of_int n + 1 / 2) * 2 powi (e - 52)" using assms(6) by simp
  then have "sqrt x < (of_int n + 1 / 2) * 2 powi (e - 52)" using assms(5) by (intro real_less_lsqrt)
  then have hi: "sqrt x / 2 powi (e - 52) < of_int n + 1 / 2" using p by (simp add: field_simps)
  have "0 \<le> c" using assms(1) by (smt (verit) zero_less_power_int)
  then show ?thesis using assms(1,2,3,7) lo hi by (intro round_double_nearest) simp_all
qed

lemma round_double_sqrt2: "round_double (sqrt 2) = 6369051672525773 / 2 ^ 52"
proof -
  have 1: "1 \<le> sqrt 2" by simp
  have 2: "sqrt 2 < 2" by (simp add: real_less_lsqrt)
  show ?thesis
    using round_double_sqrt[of 0 "sqrt 2" 6369051672525773 2] 1 2
    by (simp add: power_int_minus power2_eq_square field_simps)
qed

text \<open>
  The rounding shows in the scores: the similarity of the vector \<open>[1, 1]\<close> to itself is
  the double below 1, and its similarity to \<open>[3, 3]\<close> is 1, so a search for \<open>[1, 1]\<close>
  ranks a stored \<open>[3, 3]\<close> before a stored \<open>[1, 1]\<close>.
\<close>

lemma cosineSimilarity_same_vector:
  "cosineSimilarity [1, 1] [1, 1] = Inr (1 - 1 / 2 ^ 52)"
proof -
  define s :: real where "s = 6369051672525773 / 2 ^ 52"
  define d :: real where "d = 4503599627370497 / 2 ^ 51"
  have rs: "round_double (sqrt 2) = s"
    by (simp add: round_double_sqrt2 s_def)
  have rd: "round_double (s * s) = d"
    using round_double_nearest[of 1 "s * s" 4503599627370497]
    by (simp add: s_def d_def power_int_minus field_simps)
  have d0: "d \<noteq> 0" by (simp add: d_def)
  have rq: "round_double (2 / d) = 1 - 1 / 2 ^ 52"
    using round_double_nearest[of "-1" "2 / d" 9007199254740990]
    by (simp add: d_def power_int_minus field_simps)
  show ?thesis
    by (simp add: cosineSimilarity_def round_double_0 round_double_small rs rd d0 rq)
qed

lemma cosineSimilarity_scaled_vector:
  "cosineSimilarity [1, 1] [3, 3] = Inr 1"
proof -
  define s :: real where "s = 6369051672525773 / 2 ^ 52"
  define t :: real where "t = 4776788754394329 / 2 ^ 50"
  have rs: "round_double (sqrt 2) = s"
    by (simp add: round_double_sqrt2 s_def)
  have 3: "4 \<le> sqrt 18" by (rule real_le_rsqrt) simp
  have 4: "sqrt 18 < 8" by (simp add: real_less_lsqrt)
  have rt: "round_double (sqrt 18) = t"
    using round_double_sqrt[of 2 "sqrt 18" 4776788754394329 18] 3 4
    by (simp add: t_def power_int_minus power2_eq_square field_simps)
  have rd: "round_double (s * t) = 6"
    using round_double_nearest[of 2 "s * t" "3 * 2 ^ 51"]
    by (simp add: s_def t_def power_int_minus field_simps)
  show ?thesis
    by (simp add: cosineSimilarity_def round_double_0 round_double_small rs rt rd)
qed

lemma search_ranks_by_rounded_score:
  "search \<lparr>store_name = ''test'', dimensions = 2,
       documents = [(''p'', test_doc ''p'' [1, 1] ''same''),
                    (''q'', test_doc ''q'' [3, 3] ''scaled'')]\<rparr> [1, 1] 1 None =
     Inr [\<lparr>document = test_doc ''q'' [3, 3] ''scaled'', score = 1\<rparr>]"
proof -
  have p: "embedding (test_doc ''p'' [1, 1] ''same'') = [1, 1]"
    and q: "embedding (test_doc ''q'' [3, 3] ''scaled'') = [3, 3]"
    by (simp_all add: test_doc_def)
  show ?thesis
    by (simp add: search_def slice0_def passes_def p q
        cosineSimilarity_same_vector cosineSimilarity_scaled_vector)
qed


lemma set_update_subset: "set (AList.update k v al) \<subseteq> insert (k, v) (set al)"
  by (induction al) auto

lemma wf_store_update:
  "wf_store st \<Longrightarrow> int (length (embedding d)) = dimensions st \<Longrightarrow>
   wf_store (st\<lparr>documents := AList.update (doc_id d) d (documents st)\<rparr>)"
  using set_update_subset[of "doc_id d" d "documents st"]
  by (auto simp: wf_store_def)

lemma upsert_wf:
  "wf_store st \<Longrightarrow> wf_store (fst (upsert docs st)) \<and> dimensions (fst (upsert docs st)) = dimensions st"
proof (induction docs arbitrary: st)
  case Nil
  then show ?case by simp
next
  case (Cons d docs)
  show ?case
  proof (cases "int (length (embedding d)) = dimensions st")
    case True
    from Cons.IH[OF wf_store_update[OF Cons.prems True]] True show ?thesis by simp
  next
    case False
    then show ?thesis using Cons.prems by simp
  qed
qed



lemma test_store_upsert:
  "upsert [doc_a, doc_b, doc_c] (new_store ''test'' 3) =
     (\<lparr>store_name = ''test'', dimensions = 3,
       documents = [(''a'', doc_a), (''b'', doc_b), (''c'', doc_c)]\<rparr>, None)"
  by (simp add: new_store_def doc_a_def doc_b_def doc_c_def test_doc_def)

lemma test_similarities:
  "cosineSimilarity [0, 1, 0] [1, 0, 0] = Inr 0"
  "cosineSimilarity [0, 1, 0] [0, 1, 0] = Inr 1"
  "cosineSimilarity [0, 1, 0] [0, 0, 1] = Inr 0"
  by (simp_all add: cosineSimilarity_def round_double_0 round_double_small)



section \<open>Context assembler (chili-copilot-rag/context-assembler.ts)\<close>

datatype MessageContent =
    TextContent (content_text: string)
  | ImageContent string
  | ToolUseContent string string json
  | ToolResultContent string string

record ChatMessage =
  role :: string
  msg_content :: "MessageContent list"
  toolCallId :: "string option"
  msg_name :: "string option"

definition defaultSystemPrompt :: string where
  "defaultSystemPrompt =
     ''You are a CAD Copilot assistant for Chili3D. '' @
     ''You help users create, modify, and reason about 3D geometry. '' @
     ''You can create sketches, extrude shapes, perform boolean operations, '' @
     ''apply materials, and query the scene graph. '' @
     ''Always explain your reasoning step by step.''"

text \<open>
  The loop of \<open>selectChunks\<close>: \<open>selected\<close> and \<open>used\<close> are its two variables; the
  \<open>break\<close> returns what has been selected so far.
\<close>

fun selectLoop :: "string list \<Rightarrow> int \<Rightarrow> string list \<Rightarrow> int \<Rightarrow> string list" where
  "selectLoop [] budgetTokens selected used = selected"
| "selectLoop (chunk # chunks) budgetTokens selected used =
     (let tokens = estimateTokens chunk in
      if used + tokens > budgetTokens then selected
      else selectLoop chunks budgetTokens (selected @ [chunk]) (used + tokens))"

definition selectChunks :: "string list \<Rightarrow> int \<Rightarrow> string" where
  "selectChunks chunks budgetTokens =
     js_join [CHR 0x0A, CHR 0x0A, CHR ''-'', CHR ''-'', CHR ''-'', CHR 0x0A, CHR 0x0A]
       (selectLoop chunks budgetTokens [] 0)"

text \<open>
  The sub-budget of the retrieved knowledge, \<open>Math.min(4000, Math.floor((tokenBudget -
  usedTokens) * 0.4))\<close>, on an integer token budget.
\<close>

definition ragBudget :: "int \<Rightarrow> int \<Rightarrow> int" where
  "ragBudget tokenBudget usedTokens =
     min 4000 \<lfloor>real_of_int (tokenBudget - usedTokens) * (4 / 10)\<rfloor>"

text \<open>
  Stage 3 of \<open>buildContext\<close>. The provider's \<open>embedText\<close> is a parameter; when it throws,
  returns no vector, or the search throws, the \<open>catch\<close> leaves the context empty.
\<close>

definition retrieveKnowledge ::
  "InMemoryVectorStore \<Rightarrow> (string list \<Rightarrow> Thrown + real list list) \<Rightarrow> string \<Rightarrow> int \<Rightarrow> int \<Rightarrow> string" where
  "retrieveKnowledge vectorStore embedText query tokenBudget usedTokens =
     (if count vectorStore > 0 then
        (case embedText [query] of
           Inl _ \<Rightarrow> []
         | Inr [] \<Rightarrow> []
         | Inr (queryEmbedding # _) \<Rightarrow>
             (case search vectorStore queryEmbedding 10 None of
                Inl _ \<Rightarrow> []
              | Inr ragResults \<Rightarrow>
                  selectChunks (map (\<lambda>r. content (document r)) ragResults)
                    (ragBudget tokenBudget usedTokens)))
      else [])"

definition message_text :: "ChatMessage \<Rightarrow> string" where
  "message_text msg =
     js_join '' '' (map content_text (filter (\<lambda>c. case c of TextContent _ \<Rightarrow> True | _ \<Rightarrow> False)
                               (msg_content msg)))"

text \<open>The loop of \<open>truncateHistory\<close>, over the history from its last message backwards.\<close>

fun truncateLoop :: "ChatMessage list \<Rightarrow> int \<Rightarrow> ChatMessage list \<Rightarrow> int \<Rightarrow> ChatMessage list" where
  "truncateLoop [] budgetTokens result used = result"
| "truncateLoop (msg # earlier) budgetTokens result used =
     (let tokens = estimateTokens (message_text msg) in
      if used + tokens > budgetTokens then result
      else truncateLoop earlier budgetTokens (msg # result) (used + tokens))"

definition truncateHistory :: "ChatMessage list \<Rightarrow> int \<Rightarrow> ChatMessage list" where
  "truncateHistory history budgetTokens =
     (if budgetTokens \<le> 0 then [] else truncateLoop (rev history) budgetTokens [] 0)"

definition buildContext ::
  "InMemoryVectorStore \<Rightarrow> (string list \<Rightarrow> Thrown + real list list) \<Rightarrow>
   string \<Rightarrow> ChatMessage list \<Rightarrow> string \<Rightarrow> int \<Rightarrow> string option \<Rightarrow> ChatMessage list" where
  "buildContext vectorStore embedText query conversationHistory sceneContext tokenBudget systemPrompt =
     (let system = (case systemPrompt of None \<Rightarrow> defaultSystemPrompt | Some p \<Rightarrow> p);
          usedTokens1 = estimateTokens system;
          systemMessage = \<lparr>role = ''system'', msg_content = [TextContent system],
                            toolCallId = None, msg_name = None\<rparr>;
          usedTokens2 = usedTokens1 + estimateTokens sceneContext;
          ragContext = retrieveKnowledge vectorStore embedText query tokenBudget usedTokens2;
          usedTokens3 = usedTokens2 + estimateTokens ragContext;
          historyBudget = tokenBudget - usedTokens3 - estimateTokens query - 500;
          history = truncateHistory conversationHistory historyBudget;
          userParts =
            (if sceneContext \<noteq> [] then [TextContent (''Scene:'' @ [CHR 0x0A] @ sceneContext)] else []) @
            (if ragContext \<noteq> [] then [TextContent (''Relevant context:'' @ [CHR 0x0A] @ ragContext)] else []) @
            [TextContent query]
      in [systemMessage] @ history @
         [\<lparr>role = ''user'', msg_content = userParts, toolCallId = None, msg_name = None\<rparr>])"

text \<open>The token estimate of a list of chunks.\<close>

definition tokens_of :: "string list \<Rightarrow> int" where
  "tokens_of chunks = sum_list (map estimateTokens chunks)"

text \<open>The store of the repository's search test, after its three documents are upserted.\<close>

definition test_store :: InMemoryVectorStore where
  "test_store = \<lparr>store_name = ''test'', dimensions = 3,
       documents = [(''a'', doc_a), (''b'', doc_b), (''c'', doc_c)]\<rparr>"

lemma ragBudget_div: "ragBudget tokenBudget usedTokens = min 4000 ((tokenBudget - usedTokens) * 2 div 5)"
proof -
  have "real_of_int (tokenBudget - usedTokens) * (4 / 10) =
        real_of_int ((tokenBudget - usedTokens) * 2) / real_of_int 5"
    by simp
  then have "\<lfloor>real_of_int (tokenBudget - usedTokens) * (4 / 10)\<rfloor> = (tokenBudget - usedTokens) * 2 div 5"
    by (simp only: floor_divide_of_int_eq)
  then show ?thesis by (simp add: ragBudget_def)
qed

lemma selectLoop_prefix:
  "\<exists>k \<le> length chunks.
     selectLoop chunks budget selected used = selected @ take k chunks \<and>
     (\<forall>j. 1 \<le> j \<and> j \<le> k \<longrightarrow> used + tokens_of (take j chunks) \<le> budget) \<and>
     (k < length chunks \<longrightarrow> budget < used + tokens_of (take (Suc k) chunks))"
proof (induction chunks arbitrary: selected used)
  case Nil
  show ?case by simp
next
  case (Cons c chunks)
  show ?case
  proof (cases "used + estimateTokens c > budget")
    case True
    then show ?thesis by (intro exI[of _ 0]) (simp add: tokens_of_def)
  next
    case False
    from Cons.IH[of "selected @ [c]" "used + estimateTokens c"]
    obtain k where k: "k \<le> length chunks"
      "selectLoop chunks budget (selected @ [c]) (used + estimateTokens c) = (selected @ [c]) @ take k chunks"
      "\<forall>j. 1 \<le> j \<and> j \<le> k \<longrightarrow> used + estimateTokens c + tokens_of (take j chunks) \<le> budget"
      "k < length chunks \<longrightarrow> budget < used + estimateTokens c + tokens_of (take (Suc k) chunks)"
      by auto
    have "\<forall>j. 1 \<le> j \<and> j \<le> Suc k \<longrightarrow> used + tokens_of (take j (c # chunks)) \<le> budget"
    proof (intro allI impI)
      fix j assume j: "1 \<le> j \<and> j \<le> Suc k"
      then obtain i where i: "j = Suc i" by (cases j) auto
      show "used + tokens_of (take j (c # chunks)) \<le> budget"
      proof (cases i)
        case 0
        then show ?thesis using False i by (simp add: tokens_of_def)
      next
        case (Suc n)
        then show ?thesis using k(3) i j by (simp add: tokens_of_def add.assoc)
      qed
    qed
    with k False show ?thesis
      by (intro exI[of _ "Suc k"]) (simp add: tokens_of_def add.assoc)
  qed
qed

lemma selectChunks_prefix:
  "\<exists>k \<le> length chunks.
     selectChunks chunks budget =
       js_join [CHR 0x0A, CHR 0x0A, CHR ''-'', CHR ''-'', CHR ''-'', CHR 0x0A, CHR 0x0A]
         (take k chunks) \<and>
     (\<forall>j. 1 \<le> j \<and> j \<le> k \<longrightarrow> tokens_of (take j chunks) \<le> budget) \<and>
     (k < length chunks \<longrightarrow> budget < tokens_of (take (Suc k) chunks))"
  using selectLoop_prefix[of chunks budget "[]" 0] by (auto simp: selectChunks_def)

text \<open>
  C8. The sub-budget of the retrieved knowledge is the lesser of 4000 and 40 percent,
  rounded down, of the token budget left after the system prompt and the scene summary
  are counted; \<open>buildContext\<close> passes exactly these two estimates as the used tokens.
  When the embedding and the search succeed, the knowledge text is a prefix of the ranked
  results' contents, joined by the separator line: every non-empty prefix up to the
  selected one fits the sub-budget, and the next chunk, if there is one, would exceed it,
  so no chunk after the first one that does not fit is ever selected. The same holds of
  \<open>selectChunks\<close> on any list of chunks and any budget.
\<close>

theorem rag_greedy_prefix:
  "ragBudget tokenBudget usedTokens \<le> 4000 \<and>
   5 * ragBudget tokenBudget usedTokens \<le> 2 * (tokenBudget - usedTokens) \<and>
   (ragBudget tokenBudget usedTokens = 4000 \<or>
    2 * (tokenBudget - usedTokens) < 5 * (ragBudget tokenBudget usedTokens + 1)) \<and>
   msg_content (last (buildContext vectorStore embedText query history sceneContext tokenBudget systemPrompt)) =
     (if sceneContext \<noteq> [] then [TextContent (''Scene:'' @ [CHR 0x0A] @ sceneContext)] else []) @
     (let ragContext = retrieveKnowledge vectorStore embedText query tokenBudget
        (estimateTokens (case systemPrompt of None \<Rightarrow> defaultSystemPrompt | Some p \<Rightarrow> p) +
         estimateTokens sceneContext)
      in if ragContext \<noteq> [] then [TextContent (''Relevant context:'' @ [CHR 0x0A] @ ragContext)] else []) @
     [TextContent query] \<and>
   (count vectorStore > 0 \<and> embedText [query] = Inr (e # es) \<and>
    search vectorStore e 10 None = Inr ragResults \<longrightarrow>
      (\<exists>k \<le> length ragResults.
         retrieveKnowledge vectorStore embedText query tokenBudget usedTokens =
           js_join [CHR 0x0A, CHR 0x0A, CHR ''-'', CHR ''-'', CHR ''-'', CHR 0x0A, CHR 0x0A]
             (take k (map (\<lambda>r. content (document r)) ragResults)) \<and>
         (\<forall>j. 1 \<le> j \<and> j \<le> k \<longrightarrow>
            tokens_of (take j (map (\<lambda>r. content (document r)) ragResults))
              \<le> ragBudget tokenBudget usedTokens) \<and>
         (k < length ragResults \<longrightarrow>
            ragBudget tokenBudget usedTokens
              < tokens_of (take (Suc k) (map (\<lambda>r. content (document r)) ragResults))))) \<and>
   (\<exists>k \<le> length chunks.
      selectChunks chunks budget =
        js_join [CHR 0x0A, CHR 0x0A, CHR ''-'', CHR ''-'', CHR ''-'', CHR 0x0A, CHR 0x0A]
          (take k chunks) \<and>
      (\<forall>j. 1 \<le> j \<and> j \<le> k \<longrightarrow> tokens_of (take j chunks) \<le> budget) \<and>
      (k < length chunks \<longrightarrow> budget < tokens_of (take (Suc k) chunks)))"
proof -
  have b: "ragBudget tokenBudget usedTokens \<le> 4000"
    "5 * ragBudget tokenBudget usedTokens \<le> 2 * (tokenBudget - usedTokens)"
    "ragBudget tokenBudget usedTokens = 4000 \<or>
       2 * (tokenBudget - usedTokens) < 5 * (ragBudget tokenBudget usedTokens + 1)"
    unfolding ragBudget_div by (simp_all add: min_def) presburger+
  have m: "msg_content (last (buildContext vectorStore embedText query history sceneContext tokenBudget systemPrompt)) =
     (if sceneContext \<noteq> [] then [TextContent (''Scene:'' @ [CHR 0x0A] @ sceneContext)] else []) @
     (let ragContext = retrieveKnowledge vectorStore embedText query tokenBudget
        (estimateTokens (case systemPrompt of None \<Rightarrow> defaultSystemPrompt | Some p \<Rightarrow> p) +
         estimateTokens sceneContext)
      in if ragContext \<noteq> [] then [TextContent (''Relevant context:'' @ [CHR 0x0A] @ ragContext)] else []) @
     [TextContent query]"
    by (simp add: buildContext_def Let_def)
  have r: "count vectorStore > 0 \<and> embedText [query] = Inr (e # es) \<and>
    search vectorStore e 10 None = Inr ragResults \<longrightarrow>
      (\<exists>k \<le> length ragResults.
         retrieveKnowledge vectorStore embedText query tokenBudget usedTokens =
           js_join [CHR 0x0A, CHR 0x0A, CHR ''-'', CHR ''-'', CHR ''-'', CHR 0x0A, CHR 0x0A]
             (take k (map (\<lambda>r. content (document r)) ragResults)) \<and>
         (\<forall>j. 1 \<le> j \<and> j \<le> k \<longrightarrow>
            tokens_of (take j (map (\<lambda>r. content (document r)) ragResults))
              \<le> ragBudget tokenBudget usedTokens) \<and>
         (k < length ragResults \<longrightarrow>
            ragBudget tokenBudget usedTokens
              < tokens_of (take (Suc k) (map (\<lambda>r. content (document r)) ragResults))))"
  proof
    assume a: "count vectorStore > 0 \<and> embedText [query] = Inr (e # es) \<and>
      search vectorStore e 10 None = Inr ragResults"
    then have "retrieveKnowledge vectorStore embedText query tokenBudget usedTokens =
        selectChunks (map (\<lambda>r. content (document r)) ragResults) (ragBudget tokenBudget usedTokens)"
      by (simp add: retrieveKnowledge_def)
    then show "\<exists>k \<le> length ragResults.
         retrieveKnowledge vectorStore embedText query tokenBudget usedTokens =
           js_join [CHR 0x0A, CHR 0x0A, CHR ''-'', CHR ''-'', CHR ''-'', CHR 0x0A, CHR 0x0A]
             (take k (map (\<lambda>r. content (document r)) ragResults)) \<and>
         (\<forall>j. 1 \<le> j \<and> j \<le> k \<longrightarrow>
            tokens_of (take j (map (\<lambda>r. content (document r)) ragResults))
              \<le> ragBudget tokenBudget usedTokens) \<and>
         (k < length ragResults \<longrightarrow>
            ragBudget tokenBudget usedTokens
              < tokens_of (take (Suc k) (map (\<lambda>r. content (document r)) ragResults)))"
      using selectChunks_prefix[of "map (\<lambda>r. content (document r)) ragResults"
          "ragBudget tokenBudget usedTokens"]
      by simp
  qed
  from b m r selectChunks_prefix[of chunks budget] show ?thesis by blast
qed

lemma test_store_search:
  "search test_store [0, 1, 0] 10 None =
     Inr [\<lparr>document = doc_b, score = 1\<rparr>, \<lparr>document = doc_a, score = 0\<rparr>,
          \<lparr>document = doc_c, score = 0\<rparr>]"
  by (simp add: test_store_def search_def slice0_def passes_def test_similarities
        doc_a_def doc_b_def doc_c_def test_doc_def)

theorem rag_greedy_prefix_witness:
  "ragBudget 13 0 = 5 \<and>
   retrieveKnowledge test_store (\<lambda>texts. Inr [[0, 1, 0]]) ''query'' 13 0 =
     ''y-axis'' @ [CHR 0x0A, CHR 0x0A, CHR ''-'', CHR ''-'', CHR ''-'', CHR 0x0A, CHR 0x0A] @
     ''x-axis'' \<and>
   ragBudget 1000 100 = 360 \<and>
   retrieveKnowledge test_store (\<lambda>texts. Inr [[0, 1, 0]]) ''query'' 1000 100 =
     ''y-axis'' @ [CHR 0x0A, CHR 0x0A, CHR ''-'', CHR ''-'', CHR ''-'', CHR 0x0A, CHR 0x0A] @
     ''x-axis'' @ [CHR 0x0A, CHR 0x0A, CHR ''-'', CHR ''-'', CHR ''-'', CHR 0x0A, CHR 0x0A] @
     ''z-axis'' \<and>
   selectChunks [''aaaaaaaaaaaa'', ''bbbbbbbbbbbbbbbbbbbbbbbb'', ''cccc''] 5 = ''aaaaaaaaaaaa'' \<and>
   tokens_of [''aaaaaaaaaaaa'', ''cccc''] = 4"
proof -
  let ?results = "[\<lparr>document = doc_b, score = 1\<rparr>, \<lparr>document = doc_a, score = 0\<rparr>,
          \<lparr>document = doc_c, score = 0\<rparr>]"
  have c: "count test_store > 0" by (simp add: count_def test_store_def)
  have 1: "ragBudget 13 0 = 5"
    using rag_greedy_prefix [where tokenBudget = 13 and usedTokens = 0]
    by (simp add: ragBudget_def)
  have 2: "retrieveKnowledge test_store (\<lambda>texts. Inr [[0, 1, 0]]) ''query'' 13 0 =
     ''y-axis'' @ [CHR 0x0A, CHR 0x0A, CHR ''-'', CHR ''-'', CHR ''-'', CHR 0x0A, CHR 0x0A] @
     ''x-axis''"
    using rag_greedy_prefix [where tokenBudget = 13 and usedTokens = 0
        and vectorStore = test_store and embedText = "\<lambda>texts. Inr [[0, 1, 0]]"
        and query = "''query''" and e = "[0, 1, 0]" and es = "[]"
        and ragResults = ?results] c test_store_search 1
    by (simp add: retrieveKnowledge_def selectChunks_def estimateTokens_def
        doc_a_def doc_b_def doc_c_def test_doc_def)
  have 3: "ragBudget 1000 100 = 360"
    using rag_greedy_prefix [where tokenBudget = 1000 and usedTokens = 100]
    by (simp add: ragBudget_def)
  have 4: "retrieveKnowledge test_store (\<lambda>texts. Inr [[0, 1, 0]]) ''query'' 1000 100 =
     ''y-axis'' @ [CHR 0x0A, CHR 0x0A, CHR ''-'', CHR ''-'', CHR ''-'', CHR 0x0A, CHR 0x0A] @
     ''x-axis'' @ [CHR 0x0A, CHR 0x0A, CHR ''-'', CHR ''-'', CHR ''-'', CHR 0x0A, CHR 0x0A] @
     ''z-axis''"
    using rag_greedy_prefix [where tokenBudget = 1000 and usedTokens = 100
        and vectorStore = test_store and embedText = "\<lambda>texts. Inr [[0, 1, 0]]"
        and query = "''query''" and e = "[0, 1, 0]" and es = "[]"
        and ragResults = ?results] c test_store_search 3
    by (simp add: retrieveKnowledge_def selectChunks_def estimateTokens_def
        doc_a_def doc_b_def doc_c_def test_doc_def)
  have 5: "selectChunks [''aaaaaaaaaaaa'', ''bbbbbbbbbbbbbbbbbbbbbbbb'', ''cccc''] 5 = ''aaaaaaaaaaaa''"
    using rag_greedy_prefix [where chunks = "[''aaaaaaaaaaaa'', ''bbbbbbbbbbbbbbbbbbbbbbbb'', ''cccc'']"
        and budget = 5]
    by (simp add: selectChunks_def estimateTokens_def)
  have 6: "tokens_of [''aaaaaaaaaaaa'', ''cccc''] = 4"
    by (simp add: tokens_of_def estimateTokens_def)
  from 1 2 3 4 5 6 show ?thesis by simp
qed


section \<open>Streaming router (agentic/reasoning-stream-processor.ts)\<close>

datatype ToolStatus = ToolPending | ToolSuccess | ToolError

text \<open>
  A message entry's role is always \<open>assistant\<close>. A tool call's output is the result's
  data, or the stringified exception.
\<close>

datatype StreamReasoningEntry =
    ThinkingEntry string
  | ToolCallEntry (toolName: string) (entry_input: "(string \<times> json) list")
      (entry_output: "json option") (entry_status: ToolStatus)
  | MessageEntry string

record ChatChunk =
  delta :: string
  thinking :: "string option"
  toolCalls :: "ToolCall list option"

text \<open>
  The trace is the list of its entries. \<open>currentThinking\<close> and \<open>currentMessage\<close> refer to
  entry objects that are in the trace; they are modelled by the entry's position, which
  never changes since the processor only appends.
\<close>

record RouterState =
  entries :: "StreamReasoningEntry list"
  currentThinking :: "nat option"
  currentMessage :: "nat option"

definition append_content :: "string \<Rightarrow> StreamReasoningEntry \<Rightarrow> StreamReasoningEntry" where
  "append_content s e =
     (case e of
        ThinkingEntry c \<Rightarrow> ThinkingEntry (c @ s)
      | MessageEntry c \<Rightarrow> MessageEntry (c @ s)
      | ToolCallEntry n i out st \<Rightarrow> ToolCallEntry n i out st)"

definition routeThinking :: "ChatChunk \<Rightarrow> RouterState \<Rightarrow> RouterState" where
  "routeThinking chunk s =
     (if truthy (thinking chunk) then
        (let s1 = (case currentThinking s of
                     None \<Rightarrow> s\<lparr>entries := entries s @ [ThinkingEntry []],
                                currentThinking := Some (length (entries s))\<rparr>
                   | Some _ \<Rightarrow> s);
             i = the (currentThinking s1)
         in s1\<lparr>entries := (entries s1)[i := append_content (the (thinking chunk)) (entries s1 ! i)]\<rparr>)
      else s)"

definition routeDelta :: "ChatChunk \<Rightarrow> RouterState \<Rightarrow> RouterState" where
  "routeDelta chunk s =
     (if delta chunk \<noteq> [] then
        (let s1 = (case currentMessage s of
                     None \<Rightarrow> s\<lparr>entries := entries s @ [MessageEntry []],
                                currentMessage := Some (length (entries s))\<rparr>
                   | Some _ \<Rightarrow> s);
             i = the (currentMessage s1)
         in s1\<lparr>entries := (entries s1)[i := append_content (delta chunk) (entries s1 ! i)]\<rparr>)
      else s)"

text \<open>
  One tool call: the pending entry is pushed, the executor runs, and the entry's output
  and status are set from the result, or from the exception when the executor throws.
\<close>

definition routeToolCall ::
  "(ToolCall \<Rightarrow> Thrown + ToolResult) \<Rightarrow> ToolCall \<Rightarrow> RouterState \<Rightarrow> RouterState" where
  "routeToolCall exec call s =
     (let i = length (entries s);
          pushed = entries s @ [ToolCallEntry (call_name call) (call_input call) None ToolPending];
          finished =
            (case exec call of
               Inr result \<Rightarrow>
                 ToolCallEntry (call_name call) (call_input call) (data result)
                   (if success result then ToolSuccess else ToolError)
             | Inl err \<Rightarrow>
                 ToolCallEntry (call_name call) (call_input call) (Some (JStr (js_String err)))
                   ToolError)
      in s\<lparr>entries := pushed[i := finished]\<rparr>)"

definition processChunk ::
  "(ToolCall \<Rightarrow> Thrown + ToolResult) \<Rightarrow> ChatChunk \<Rightarrow> RouterState \<Rightarrow> RouterState" where
  "processChunk exec chunk s =
     (let s1 = routeThinking chunk s;
          s2 = routeDelta chunk s1
      in case toolCalls chunk of
           None \<Rightarrow> s2
         | Some calls \<Rightarrow> fold (routeToolCall exec) calls s2)"

text \<open>
  \<open>processStream\<close> on a trace: both accumulators start undefined for each stream; the
  result is the trace after the last chunk.
\<close>

definition processStream ::
  "(ToolCall \<Rightarrow> Thrown + ToolResult) \<Rightarrow> StreamReasoningEntry list \<Rightarrow> ChatChunk list \<Rightarrow>
   StreamReasoningEntry list" where
  "processStream exec trace stream =
     entries (fold (processChunk exec) stream
        \<lparr>entries = trace, currentThinking = None, currentMessage = None\<rparr>)"

fun is_thinking :: "StreamReasoningEntry \<Rightarrow> bool" where
  "is_thinking (ThinkingEntry _) = True"
| "is_thinking _ = False"

fun is_message :: "StreamReasoningEntry \<Rightarrow> bool" where
  "is_message (MessageEntry _) = True"
| "is_message _ = False"

fun is_tool_call :: "StreamReasoningEntry \<Rightarrow> bool" where
  "is_tool_call (ToolCallEntry _ _ _ _) = True"
| "is_tool_call _ = False"

text \<open>The thinking text, the message text and the tool calls of a whole stream.\<close>

definition all_thinking :: "ChatChunk list \<Rightarrow> string" where
  "all_thinking stream = concat (map (\<lambda>c. case thinking c of None \<Rightarrow> [] | Some t \<Rightarrow> t) stream)"

definition all_delta :: "ChatChunk list \<Rightarrow> string" where
  "all_delta stream = concat (map delta stream)"

definition all_calls :: "ChatChunk list \<Rightarrow> ToolCall list" where
  "all_calls stream = concat (map (\<lambda>c. case toolCalls c of None \<Rightarrow> [] | Some cs \<Rightarrow> cs) stream)"

definition finished_entry :: "(ToolCall \<Rightarrow> Thrown + ToolResult) \<Rightarrow> ToolCall \<Rightarrow> StreamReasoningEntry" where
  "finished_entry exec call =
     (case exec call of
        Inr result \<Rightarrow>
          ToolCallEntry (call_name call) (call_input call) (data result)
            (if success result then ToolSuccess else ToolError)
      | Inl err \<Rightarrow>
          ToolCallEntry (call_name call) (call_input call) (Some (JStr (js_String err))) ToolError)"

text \<open>A stream with thinking before and after a tool call, on an executor with no handler.\<close>

definition query_call :: ToolCall where
  "query_call = \<lparr>call_id = ''call_1'', call_name = ''query'', call_input = []\<rparr>"

definition interleaved_stream :: "ChatChunk list" where
  "interleaved_stream =
     [\<lparr>delta = [], thinking = Some ''Let me think'', toolCalls = None\<rparr>,
      \<lparr>delta = [], thinking = None, toolCalls = Some [query_call]\<rparr>,
      \<lparr>delta = [], thinking = Some '' again'', toolCalls = None\<rparr>]"

text \<open>
  The invariant of the router while it processes a stream on a trace that had \<open>n\<close>
  entries: an accumulator variable is undefined exactly when the stream has added no
  entry of its kind; otherwise it refers to the only entry of its kind that the stream
  has added, whose content is the text accumulated so far.
\<close>

definition acc_inv ::
  "(StreamReasoningEntry \<Rightarrow> bool) \<Rightarrow> (string \<Rightarrow> StreamReasoningEntry) \<Rightarrow> nat \<Rightarrow>
   StreamReasoningEntry list \<Rightarrow> nat option \<Rightarrow> string option \<Rightarrow> bool" where
  "acc_inv P C n es cur acc =
     (case acc of
        None \<Rightarrow> cur = None \<and> filter P (drop n es) = []
      | Some c \<Rightarrow> \<exists>i. cur = Some i \<and> n \<le> i \<and> i < length es \<and> es ! i = C c \<and>
                     filter P (drop n es) = [C c])"

definition router_inv :: "nat \<Rightarrow> RouterState \<Rightarrow> string option \<Rightarrow> string option \<Rightarrow> bool" where
  "router_inv n s T M =
     (n \<le> length (entries s) \<and>
      acc_inv is_thinking ThinkingEntry n (entries s) (currentThinking s) T \<and>
      acc_inv is_message MessageEntry n (entries s) (currentMessage s) M)"

definition extend :: "string option \<Rightarrow> string \<Rightarrow> string option" where
  "extend acc s = (if s = [] then acc else Some ((case acc of None \<Rightarrow> [] | Some c \<Rightarrow> c) @ s))"

lemma filter_update_other:
  "i < length xs \<Longrightarrow> \<not> Q (xs ! i) \<Longrightarrow> \<not> Q y \<Longrightarrow> filter Q (xs[i := y]) = filter Q xs"
proof (induction xs arbitrary: i)
  case Nil
  then show ?case by simp
next
  case (Cons x xs)
  then show ?case by (cases i) auto
qed

lemma filter_update_single:
  assumes "i < length xs" and "filter P xs = [xs ! i]" and "P y"
  shows "filter P (xs[i := y]) = [y]"
proof -
  have xs: "xs = take i xs @ xs ! i # drop (Suc i) xs"
    using assms(1) by (simp add: id_take_nth_drop)
  have "filter P (take i xs) @ filter P [xs ! i] @ filter P (drop (Suc i) xs) = [xs ! i]"
    using assms(2) xs by (metis append_Cons append_Nil filter_append)
  moreover have "P (xs ! i)"
  proof -
    have "xs ! i \<in> set (filter P xs)" using assms(2) by simp
    then show ?thesis by simp
  qed
  ultimately have "filter P (take i xs) = [] \<and> filter P (drop (Suc i) xs) = []"
    by (simp add: append_eq_Cons_conv)
  then show ?thesis
    using assms(1,3) by (simp add: upd_conv_take_nth_drop)
qed

lemma acc_inv_append_other:
  "acc_inv P C n es cur acc \<Longrightarrow> n \<le> length es \<Longrightarrow> \<not> P e \<Longrightarrow> acc_inv P C n (es @ [e]) cur acc"
  by (auto simp: acc_inv_def nth_append split: option.splits)

lemma acc_inv_update_other:
  assumes "acc_inv P C n es cur acc" and "n \<le> j" and "j < length es"
    and "\<not> P (es ! j)" and "\<not> P y" and "\<And>c. P (C c)"
  shows "acc_inv P C n (es[j := y]) cur acc"
proof -
  have f: "filter P (drop n (es[j := y])) = filter P (drop n es)"
    using assms(2-5) by (simp add: drop_update_swap filter_update_other)
  show ?thesis
  proof (cases acc)
    case None
    then show ?thesis using assms(1) f by (simp add: acc_inv_def)
  next
    case (Some c)
    then obtain i where i: "cur = Some i" "n \<le> i" "i < length es" "es ! i = C c"
      "filter P (drop n es) = [C c]"
      using assms(1) by (auto simp: acc_inv_def)
    have "i \<noteq> j" using i(4) assms(4,6) by auto
    then show ?thesis using Some i f by (auto simp: acc_inv_def)
  qed
qed

lemma acc_inv_open:
  "acc_inv P C n es None None \<Longrightarrow> n \<le> length es \<Longrightarrow> P (C s) \<Longrightarrow>
   acc_inv P C n (es @ [C s]) (Some (length es)) (Some s)"
  by (simp add: acc_inv_def)

lemma acc_inv_resume:
  assumes "acc_inv P C n es (Some i) (Some c)" and "P (C (c @ s))"
  shows "acc_inv P C n (es[i := C (c @ s)]) (Some i) (Some (c @ s))"
proof -
  from assms(1) have i: "n \<le> i" "i < length es" "es ! i = C c" "filter P (drop n es) = [C c]"
    by (auto simp: acc_inv_def)
  have "filter P (drop n (es[i := C (c @ s)])) = [C (c @ s)]"
    using i assms(2) by (simp add: drop_update_swap filter_update_single)
  then show ?thesis using i by (simp add: acc_inv_def)
qed

lemma acc_inv_cur:
  "acc_inv P C n es cur acc \<Longrightarrow> (cur = None \<longleftrightarrow> acc = None)"
  by (auto simp: acc_inv_def split: option.splits)

lemma acc_inv_entry:
  "acc_inv P C n es (Some i) (Some c) \<Longrightarrow> n \<le> i \<and> i < length es \<and> es ! i = C c"
  by (auto simp: acc_inv_def)

lemma routeThinking_inv:
  assumes "router_inv n s T M"
  shows "router_inv n (routeThinking chunk s)
           (extend T (case thinking chunk of None \<Rightarrow> [] | Some t \<Rightarrow> t)) M \<and>
         take n (entries (routeThinking chunk s)) = take n (entries s) \<and>
         filter is_tool_call (drop n (entries (routeThinking chunk s))) =
           filter is_tool_call (drop n (entries s))"
proof (cases "truthy (thinking chunk)")
  case False
  then have "routeThinking chunk s = s" "(case thinking chunk of None \<Rightarrow> [] | Some t \<Rightarrow> t) = []"
    by (auto simp: routeThinking_def truthy_def split: option.splits)
  then show ?thesis using assms by (simp add: extend_def)
next
  case True
  then obtain t where t: "thinking chunk = Some t" "t \<noteq> []"
    by (auto simp: truthy_def split: option.splits)
  from assms have n: "n \<le> length (entries s)"
    and a: "acc_inv is_thinking ThinkingEntry n (entries s) (currentThinking s) T"
    and m: "acc_inv is_message MessageEntry n (entries s) (currentMessage s) M"
    by (auto simp: router_inv_def)
  show ?thesis
  proof (cases T)
    case None
    then have c: "currentThinking s = None" using acc_inv_cur[OF a] by simp
    have r: "routeThinking chunk s =
        s\<lparr>entries := entries s @ [ThinkingEntry t], currentThinking := Some (length (entries s))\<rparr>"
      using True t c by (simp add: routeThinking_def append_content_def)
    have "acc_inv is_thinking ThinkingEntry n (entries s @ [ThinkingEntry t])
            (Some (length (entries s))) (Some t)"
      using acc_inv_open[of is_thinking ThinkingEntry n "entries s" t] a n c None by simp
    moreover have "acc_inv is_message MessageEntry n (entries s @ [ThinkingEntry t])
            (currentMessage s) M"
      using acc_inv_append_other[OF m n] by simp
    ultimately show ?thesis
      using n t None by (simp add: r router_inv_def extend_def)
  next
    case (Some c)
    then obtain i where i: "currentThinking s = Some i"
      using acc_inv_cur[OF a] by auto
    have e: "n \<le> i" "i < length (entries s)" "entries s ! i = ThinkingEntry c"
      using acc_inv_entry a i Some by auto
    have r: "routeThinking chunk s = s\<lparr>entries := (entries s)[i := ThinkingEntry (c @ t)]\<rparr>"
      using True t i e by (simp add: routeThinking_def append_content_def)
    have "acc_inv is_thinking ThinkingEntry n ((entries s)[i := ThinkingEntry (c @ t)])
            (Some i) (Some (c @ t))"
      using acc_inv_resume[of is_thinking ThinkingEntry n "entries s" i c t] a i Some by simp
    moreover have "acc_inv is_message MessageEntry n ((entries s)[i := ThinkingEntry (c @ t)])
            (currentMessage s) M"
      using acc_inv_update_other[OF m e(1,2)] e(3) by simp
    moreover have "filter is_tool_call (drop n ((entries s)[i := ThinkingEntry (c @ t)])) =
        filter is_tool_call (drop n (entries s))"
      using e by (simp add: drop_update_swap filter_update_other)
    ultimately show ?thesis
      using n t Some i e by (simp add: r router_inv_def extend_def)
  qed
qed

lemma routeDelta_inv:
  assumes "router_inv n s T M"
  shows "router_inv n (routeDelta chunk s) T (extend M (delta chunk)) \<and>
         take n (entries (routeDelta chunk s)) = take n (entries s) \<and>
         filter is_tool_call (drop n (entries (routeDelta chunk s))) =
           filter is_tool_call (drop n (entries s))"
proof (cases "delta chunk = []")
  case True
  then have "routeDelta chunk s = s" by (simp add: routeDelta_def)
  then show ?thesis using assms True by (simp add: extend_def)
next
  case False
  let ?t = "delta chunk"
  from assms have n: "n \<le> length (entries s)"
    and a: "acc_inv is_thinking ThinkingEntry n (entries s) (currentThinking s) T"
    and m: "acc_inv is_message MessageEntry n (entries s) (currentMessage s) M"
    by (auto simp: router_inv_def)
  show ?thesis
  proof (cases M)
    case None
    then have c: "currentMessage s = None" using acc_inv_cur[OF m] by simp
    have r: "routeDelta chunk s =
        s\<lparr>entries := entries s @ [MessageEntry ?t], currentMessage := Some (length (entries s))\<rparr>"
      using False c by (simp add: routeDelta_def append_content_def)
    have "acc_inv is_message MessageEntry n (entries s @ [MessageEntry ?t])
            (Some (length (entries s))) (Some ?t)"
      using acc_inv_open[of is_message MessageEntry n "entries s" ?t] m n c None by simp
    moreover have "acc_inv is_thinking ThinkingEntry n (entries s @ [MessageEntry ?t])
            (currentThinking s) T"
      using acc_inv_append_other[OF a n] by simp
    ultimately show ?thesis
      using n False None by (simp add: r router_inv_def extend_def)
  next
    case (Some c)
    then obtain i where i: "currentMessage s = Some i"
      using acc_inv_cur[OF m] by auto
    have e: "n \<le> i" "i < length (entries s)" "entries s ! i = MessageEntry c"
      using acc_inv_entry m i Some by auto
    have r: "routeDelta chunk s = s\<lparr>entries := (entries s)[i := MessageEntry (c @ ?t)]\<rparr>"
      using False i e by (simp add: routeDelta_def append_content_def)
    have "acc_inv is_message MessageEntry n ((entries s)[i := MessageEntry (c @ ?t)])
            (Some i) (Some (c @ ?t))"
      using acc_inv_resume[of is_message MessageEntry n "entries s" i c ?t] m i Some by simp
    moreover have "acc_inv is_thinking ThinkingEntry n ((entries s)[i := MessageEntry (c @ ?t)])
            (currentThinking s) T"
      using acc_inv_update_other[OF a e(1,2)] e(3) by simp
    moreover have "filter is_tool_call (drop n ((entries s)[i := MessageEntry (c @ ?t)])) =
        filter is_tool_call (drop n (entries s))"
      using e by (simp add: drop_update_swap filter_update_other)
    ultimately show ?thesis
      using n False Some i e by (simp add: r router_inv_def extend_def)
  qed
qed

lemma routeToolCall_eq:
  "routeToolCall exec call s = s\<lparr>entries := entries s @ [finished_entry exec call]\<rparr>"
  by (simp add: routeToolCall_def finished_entry_def Let_def)

lemma is_tool_call_finished: "is_tool_call (finished_entry exec call)"
  by (simp add: finished_entry_def split: sum.splits)

lemma not_thinking_finished:
  "\<not> is_thinking (finished_entry exec call)" "\<not> is_message (finished_entry exec call)"
  by (simp_all add: finished_entry_def split: sum.splits)

lemma routeToolCalls_inv:
  assumes "router_inv n s T M"
  shows "router_inv n (fold (routeToolCall exec) calls s) T M \<and>
         take n (entries (fold (routeToolCall exec) calls s)) = take n (entries s) \<and>
         filter is_tool_call (drop n (entries (fold (routeToolCall exec) calls s))) =
           filter is_tool_call (drop n (entries s)) @ map (finished_entry exec) calls"
  using assms
proof (induction calls arbitrary: s)
  case Nil
  then show ?case by simp
next
  case (Cons call calls)
  let ?s1 = "routeToolCall exec call s"
  from Cons.prems have n: "n \<le> length (entries s)"
    and a: "acc_inv is_thinking ThinkingEntry n (entries s) (currentThinking s) T"
    and m: "acc_inv is_message MessageEntry n (entries s) (currentMessage s) M"
    by (auto simp: router_inv_def)
  have "router_inv n ?s1 T M"
    using acc_inv_append_other[OF a n not_thinking_finished(1)]
      acc_inv_append_other[OF m n not_thinking_finished(2)] n
    by (simp add: routeToolCall_eq router_inv_def)
  from Cons.IH[OF this] n show ?case
    by (simp add: routeToolCall_eq is_tool_call_finished)
qed

lemma processChunk_inv:
  assumes "router_inv n s T M"
  shows "router_inv n (processChunk exec chunk s)
           (extend T (case thinking chunk of None \<Rightarrow> [] | Some t \<Rightarrow> t))
           (extend M (delta chunk)) \<and>
         take n (entries (processChunk exec chunk s)) = take n (entries s) \<and>
         filter is_tool_call (drop n (entries (processChunk exec chunk s))) =
           filter is_tool_call (drop n (entries s)) @
           map (finished_entry exec) (case toolCalls chunk of None \<Rightarrow> [] | Some cs \<Rightarrow> cs)"
proof -
  let ?s1 = "routeThinking chunk s"
  let ?s2 = "routeDelta chunk ?s1"
  note 1 = routeThinking_inv[OF assms, of chunk]
  note 2 = routeDelta_inv[OF 1[THEN conjunct1], of chunk]
  note 3 = routeToolCalls_inv[OF 2[THEN conjunct1], of exec]
  show ?thesis
  proof (cases "toolCalls chunk")
    case None
    then show ?thesis using 1 2 by (simp add: processChunk_def)
  next
    case (Some cs)
    then show ?thesis using 1 2 3[of cs] by (simp add: processChunk_def)
  qed
qed

lemma extend_extend:
  "extend (extend T a) b = extend T (a @ b)"
  by (auto simp: extend_def split: option.splits)

lemma processChunks_inv:
  assumes "router_inv n s T M"
  shows "router_inv n (fold (processChunk exec) stream s)
           (extend T (all_thinking stream)) (extend M (all_delta stream)) \<and>
         take n (entries (fold (processChunk exec) stream s)) = take n (entries s) \<and>
         filter is_tool_call (drop n (entries (fold (processChunk exec) stream s))) =
           filter is_tool_call (drop n (entries s)) @
           map (finished_entry exec) (all_calls stream)"
  using assms
proof (induction stream arbitrary: s T M)
  case Nil
  then show ?case by (simp add: all_thinking_def all_delta_def all_calls_def extend_def)
next
  case (Cons chunk stream)
  note 1 = processChunk_inv[OF Cons.prems, of exec chunk]
  note 2 = Cons.IH[OF 1[THEN conjunct1]]
  show ?case using 1 2
    by (simp add: extend_extend all_thinking_def all_delta_def all_calls_def)
qed

text \<open>
  C4 (as the code has it). Processing a stream leaves the entries that were in the trace
  untouched and adds at most one thinking entry and at most one message entry: the
  thinking entry holds all the thinking fragments of the stream in order, the message
  entry all its text deltas, whatever tool calls or entries of another kind were
  appended in between; an entry is opened only by the first non-empty fragment of its
  kind. The tool-call entries added are those of the stream's calls, in call order.
\<close>

theorem accumulators_never_closed:
  "take (length trace) (processStream exec trace stream) = trace \<and>
   filter is_thinking (drop (length trace) (processStream exec trace stream)) =
     (if all_thinking stream = [] then [] else [ThinkingEntry (all_thinking stream)]) \<and>
   filter is_message (drop (length trace) (processStream exec trace stream)) =
     (if all_delta stream = [] then [] else [MessageEntry (all_delta stream)]) \<and>
   filter is_tool_call (drop (length trace) (processStream exec trace stream)) =
     map (finished_entry exec) (all_calls stream)"
proof -
  let ?s0 = "\<lparr>entries = trace, currentThinking = None, currentMessage = None\<rparr>"
  have "router_inv (length trace) ?s0 None None"
    by (simp add: router_inv_def acc_inv_def)
  from processChunks_inv[OF this, of exec stream]
  show ?thesis
    by (cases "all_thinking stream = []"; cases "all_delta stream = []")
       (auto simp: processStream_def router_inv_def acc_inv_def extend_def)
qed

theorem accumulators_never_closed_witness:
  "filter is_thinking (processStream (\<lambda>c. Inr (execute [] c)) [] interleaved_stream) =
     [ThinkingEntry ''Let me think again''] \<and>
   filter is_tool_call (processStream (\<lambda>c. Inr (execute [] c)) [] interleaved_stream) =
     [ToolCallEntry ''query'' [] None ToolError]"
  using accumulators_never_closed [of "[]" "\<lambda>c. Inr (execute [] c)" interleaved_stream]
  by (simp add: all_thinking_def all_calls_def interleaved_stream_def finished_entry_def
      execute_def query_call_def)

text \<open>
  C4 as stated fails: a thinking fragment that arrives after a tool call does not open a
  new entry. The trace holds two entries, the thinking entry with both fragments and
  the tool call, and not three.
\<close>

theorem thinking_resumed_after_tool_call:
  "processStream (\<lambda>c. Inr (execute [] c)) [] interleaved_stream =
     [ThinkingEntry ''Let me think again'', ToolCallEntry ''query'' [] None ToolError]"
  by (simp add: processStream_def interleaved_stream_def processChunk_def routeThinking_def
      routeDelta_def routeToolCall_def truthy_def append_content_def execute_def query_call_def)


section \<open>Plan scheduler (agentic/executor-agent.ts)\<close>

text \<open>
  \<open>topologicalSort\<close>. The two maps of the source are association lists in insertion order.
  A step object is referred to by its position in \<open>plan.steps\<close>: \<open>stepMap\<close> maps an index
  to the position of the last step that carries it, and the sorted list is a list of
  positions, so that a later assignment to \<open>step.status\<close> is an update of the plan's list
  at that position.
\<close>

definition neighbors :: "(int \<times> int list) list \<Rightarrow> int \<Rightarrow> int list" where
  "neighbors adjacency k = (case map_of adjacency k of None \<Rightarrow> [] | Some existing \<Rightarrow> existing)"

definition degreeOf :: "(int \<times> int) list \<Rightarrow> int \<Rightarrow> int" where
  "degreeOf inDegree k = (case map_of inDegree k of None \<Rightarrow> 1 | Some d \<Rightarrow> d)"

definition addEdges :: "int \<Rightarrow> int list \<Rightarrow> (int \<times> int list) list \<Rightarrow> (int \<times> int list) list" where
  "addEdges idx deps adjacency =
     fold (\<lambda>dep adj. AList.update dep (neighbors adj dep @ [idx]) adj) deps adjacency"

definition buildGraph :: "PlanStep list \<Rightarrow> (int \<times> int) list \<times> (int \<times> int list) list" where
  "buildGraph planSteps =
     fold (\<lambda>step (inDegree, adjacency).
             (AList.update (index step) (int (length (dependsOn step))) inDegree,
              addEdges (index step) (dependsOn step)
                (if map_of adjacency (index step) = None
                 then AList.update (index step) [] adjacency else adjacency)))
          planSteps ([], [])"

definition buildStepMap :: "PlanStep list \<Rightarrow> (int \<times> nat) list" where
  "buildStepMap planSteps =
     fold (\<lambda>p m. AList.update (index (planSteps ! p)) p m) [0..<length planSteps] []"

definition relax :: "int \<Rightarrow> (int \<times> int) list \<times> int list \<Rightarrow> (int \<times> int) list \<times> int list" where
  "relax neighbor = (\<lambda>(inDegree, queue).
     (let deg = degreeOf inDegree neighbor - 1
      in (AList.update neighbor deg inDegree,
          if deg = 0 then queue @ [neighbor] else queue)))"

text \<open>
  The loop ends: the length of the queue plus the number of neighbours whose counter is
  still positive goes down with every iteration, since a neighbour is pushed only when
  its counter goes from one to zero.
\<close>

definition pending_measure :: "(int \<times> int list) list \<Rightarrow> (int \<times> int) list \<Rightarrow> int list \<Rightarrow> nat" where
  "pending_measure adjacency inDegree queue =
     length queue + card {k \<in> set (concat (map snd adjacency)). 0 < degreeOf inDegree k}"

lemma degreeOf_update:
  "degreeOf (AList.update n v inDegree) k = (if k = n then v else degreeOf inDegree k)"
  by (simp add: degreeOf_def update_conv')

lemma relax_measure:
  assumes "neighbor \<in> set (concat (map snd adjacency))"
  shows "pending_measure adjacency (fst (relax neighbor (inDegree, queue)))
           (snd (relax neighbor (inDegree, queue))) =
         pending_measure adjacency inDegree queue"
proof -
  let ?K = "set (concat (map snd adjacency))"
  let ?d = "degreeOf inDegree neighbor"
  let ?inDegree' = "AList.update neighbor (?d - 1) inDegree"
  show ?thesis
  proof (cases "?d = 1")
    case True
    have "{k \<in> ?K. 0 < degreeOf ?inDegree' k} = {k \<in> ?K. 0 < degreeOf inDegree k} - {neighbor}"
      using True by (auto simp: degreeOf_update)
    moreover have "neighbor \<in> {k \<in> ?K. 0 < degreeOf inDegree k}"
      using True assms by simp
    moreover have "finite {k \<in> ?K. 0 < degreeOf inDegree k}" by simp
    ultimately have "Suc (card {k \<in> ?K. 0 < degreeOf ?inDegree' k}) =
        card {k \<in> ?K. 0 < degreeOf inDegree k}"
      by (metis (no_types, lifting) card_Suc_Diff1)
    then show ?thesis using True by (simp add: relax_def pending_measure_def Let_def)
  next
    case False
    have "{k \<in> ?K. 0 < degreeOf ?inDegree' k} = {k \<in> ?K. 0 < degreeOf inDegree k}"
      using False by (auto simp: degreeOf_update)
    then show ?thesis using False by (simp add: relax_def pending_measure_def Let_def)
  qed
qed

lemma fold_relax_measure:
  "set ns \<subseteq> set (concat (map snd adjacency)) \<Longrightarrow>
   pending_measure adjacency (fst (fold relax ns (inDegree, queue)))
     (snd (fold relax ns (inDegree, queue))) =
   pending_measure adjacency inDegree queue"
proof (induction ns arbitrary: inDegree queue)
  case Nil
  show ?case by simp
next
  case (Cons n ns)
  obtain i q where r: "relax n (inDegree, queue) = (i, q)" by (cases "relax n (inDegree, queue)")
  have "pending_measure adjacency i q = pending_measure adjacency inDegree queue"
    using relax_measure[of n adjacency inDegree queue] Cons.prems r by simp
  then show ?case using Cons r by simp
qed

lemma neighbors_subset: "set (neighbors adjacency k) \<subseteq> set (concat (map snd adjacency))"
proof (cases "map_of adjacency k")
  case None
  then show ?thesis by (simp add: neighbors_def)
next
  case (Some ns)
  then have "(k, ns) \<in> set adjacency" by (rule map_of_SomeD)
  then show ?thesis using Some by (force simp: neighbors_def)
qed

function kahnLoop ::
  "(int \<times> int list) list \<Rightarrow> (int \<times> nat) list \<Rightarrow> int list \<Rightarrow> (int \<times> int) list \<Rightarrow> nat list \<Rightarrow> nat list" where
  "kahnLoop adjacency stepMap [] inDegree sortedRefs = sortedRefs"
| "kahnLoop adjacency stepMap (current # queue) inDegree sortedRefs =
     (let sortedRefs' = (case map_of stepMap current of None \<Rightarrow> sortedRefs | Some step \<Rightarrow> sortedRefs @ [step]);
          relaxed = fold relax (neighbors adjacency current) (inDegree, queue)
      in kahnLoop adjacency stepMap (snd relaxed) (fst relaxed) sortedRefs')"
  by pat_completeness auto
termination
proof (relation "measure (\<lambda>(adjacency, stepMap, queue, inDegree, sortedRefs).
                   pending_measure adjacency inDegree queue)", goal_cases)
  case 1
  show ?case by simp
next
  case (2 adjacency stepMap current queue inDegree sortedRefs sortedRefs' relaxed)
  have "pending_measure adjacency (fst relaxed) (snd relaxed) = pending_measure adjacency inDegree queue"
    using 2(2) fold_relax_measure[OF neighbors_subset] by simp
  then show ?case by (simp add: pending_measure_def)
qed

definition topologicalSortRefs :: "PlanStep list \<Rightarrow> nat list" where
  "topologicalSortRefs planSteps =
     (let (inDegree, adjacency) = buildGraph planSteps;
          queue = map fst (filter (\<lambda>(idx, degree). degree = 0) inDegree);
          stepMap = buildStepMap planSteps
      in kahnLoop adjacency stepMap queue inDegree [])"

definition topologicalSort :: "PlanStep list \<Rightarrow> PlanStep list" where
  "topologicalSort planSteps = map (\<lambda>p. planSteps ! p) (topologicalSortRefs planSteps)"


text \<open>
  \<open>executePlan\<close>. The state is the plan's step list, the results, and the log of the
  assignments to a step's \<open>status\<close> (position and value, in order), through which an
  observer sees the progress.
\<close>

record ExecState =
  planSteps :: "PlanStep list"
  results :: "StepResult list"
  statusWrites :: "(nat \<times> StepStatus) list"

definition setStatus :: "nat \<Rightarrow> StepStatus \<Rightarrow> ExecState \<Rightarrow> ExecState" where
  "setStatus p v st =
     st\<lparr>planSteps := (planSteps st)[p := (planSteps st ! p)\<lparr>status := v\<rparr>],
        statusWrites := statusWrites st @ [(p, v)]\<rparr>"

definition pendingCount :: "ExecState \<Rightarrow> nat" where
  "pendingCount st = length (filter (\<lambda>s. status s = Pending) (planSteps st))"

text \<open>
  \<open>skipDependents\<close>: \<open>skipFrom failedIndex i\<close> is the \<open>for\<close> loop from position \<open>i\<close> on;
  the recursive call on a skipped step runs a full loop on the updated plan before the
  outer loop goes on. Every recursive call follows the skipping of a pending step, which
  bounds the recursion.
\<close>

function skipFrom :: "int \<Rightarrow> nat \<Rightarrow> ExecState \<Rightarrow> ExecState" where
  "skipFrom failedIndex i st =
     (if i < length (planSteps st) then
        (let step = planSteps st ! i in
         if failedIndex \<in> set (dependsOn step) \<and> status step = Pending
         then skipFrom failedIndex (Suc i) (skipFrom (index step) 0 (setStatus i Skipped st))
         else skipFrom failedIndex (Suc i) st)
      else st)"
  by pat_completeness auto

lemma setStatus_length [simp]: "length (planSteps (setStatus p v st)) = length (planSteps st)"
  by (simp add: setStatus_def)

lemma filter_update_length:
  "i < length xs \<Longrightarrow> P (xs ! i) \<Longrightarrow> \<not> P y \<Longrightarrow>
   Suc (length (filter P (xs[i := y]))) = length (filter P xs)"
proof (induction xs arbitrary: i)
  case Nil
  then show ?case by simp
next
  case (Cons x xs)
  then show ?case by (cases i) auto
qed

lemma pendingCount_skip:
  "i < length (planSteps st) \<Longrightarrow> status (planSteps st ! i) = Pending \<Longrightarrow>
   Suc (pendingCount (setStatus i Skipped st)) = pendingCount st"
  using filter_update_length[of i "planSteps st" "\<lambda>s. status s = Pending"
      "(planSteps st ! i)\<lparr>status := Skipped\<rparr>"]
  by (simp add: pendingCount_def setStatus_def)

lemma skipFrom_estimate:
  "skipFrom_dom (failedIndex, i, st) \<Longrightarrow>
   length (planSteps (skipFrom failedIndex i st)) = length (planSteps st) \<and>
   pendingCount (skipFrom failedIndex i st) \<le> pendingCount st"
proof (induction failedIndex i st rule: skipFrom.pinduct)
  case (1 failedIndex i st)
  show ?case
  proof (cases "i < length (planSteps st)")
    case False
    then show ?thesis using 1(1) by (simp add: skipFrom.psimps)
  next
    case True
    let ?step = "planSteps st ! i"
    show ?thesis
    proof (cases "failedIndex \<in> set (dependsOn ?step) \<and> status ?step = Pending")
      case False
      then show ?thesis using 1(1) 1(4)[OF True refl] True
        by (auto simp: skipFrom.psimps Let_def)
    next
      case c: True
      let ?st1 = "setStatus i Skipped st"
      let ?st2 = "skipFrom (index ?step) 0 ?st1"
      note a = 1(2)[OF True refl c]
      note b = 1(3)[OF True refl c]
      from a b pendingCount_skip[OF True] c show ?thesis
        using 1(1) True by (simp add: skipFrom.psimps Let_def)
    qed
  qed
qed

termination skipFrom
proof (relation "measures [\<lambda>(f, i, st). pendingCount st, \<lambda>(f, i, st). length (planSteps st) - i]",
    goal_cases)
  case 1
  show ?case by simp
next
  case (2 failedIndex i st step)
  then show ?case using pendingCount_skip[of i st] by simp
next
  case (3 failedIndex i st step)
  have "pendingCount (skipFrom (index step) 0 (setStatus i Skipped st)) \<le>
        pendingCount (setStatus i Skipped st)"
    "length (planSteps (skipFrom (index step) 0 (setStatus i Skipped st))) = length (planSteps st)"
    using skipFrom_estimate[OF 3(4)] by simp_all
  then show ?case using 3 pendingCount_skip[of i st] by simp
next
  case (4 failedIndex i st step)
  then show ?case by simp
qed

declare skipFrom.simps [simp del]

definition skipDependents :: "int \<Rightarrow> ExecState \<Rightarrow> ExecState" where
  "skipDependents failedIndex st = skipFrom failedIndex 0 st"

text \<open>
  What one model interaction of \<open>executeStep\<close> or \<open>retryStep\<close> comes to: the stream ran to
  its end with every tool call successful (with the node ids collected), or a tool call
  failed or an exception was caught (with the optional error text). The interactions
  themselves are parameters, indexed by the iteration of the loop.
\<close>

datatype Attempt = Succeeded "string list" | FailedWith "string option"

definition executeStep ::
  "(nat \<Rightarrow> PlanStep \<Rightarrow> StepResult list \<Rightarrow> Attempt) \<Rightarrow> nat \<Rightarrow> PlanStep \<Rightarrow> StepResult list \<Rightarrow> StepResult" where
  "executeStep chat k step previousResults =
     (case chat k step previousResults of
        Succeeded ids \<Rightarrow>
          \<lparr>stepIndex = index step, result_status = Success, nodeIds = Some ids, result_error = None\<rparr>
      | FailedWith e \<Rightarrow>
          \<lparr>stepIndex = index step, result_status = Failure, nodeIds = None, result_error = e\<rparr>)"

definition retryStep ::
  "(nat \<Rightarrow> PlanStep \<Rightarrow> string \<Rightarrow> Attempt) \<Rightarrow> nat \<Rightarrow> PlanStep \<Rightarrow> string \<Rightarrow> StepResult" where
  "retryStep chat k step errorMessage =
     (case chat k step errorMessage of
        Succeeded ids \<Rightarrow>
          \<lparr>stepIndex = index step, result_status = Success, nodeIds = None, result_error = None\<rparr>
      | FailedWith e \<Rightarrow>
          \<lparr>stepIndex = index step, result_status = Failure, nodeIds = None, result_error = e\<rparr>)"

text \<open>
  The loop of \<open>executePlan\<close> over the sorted steps. It ends when the steps are exhausted,
  at the first \<open>break\<close> on the abort signal (polled before each step), or at the \<open>break\<close>
  after a step that failed and whose retry failed.
\<close>

datatype LoopExit = Exhausted | Aborted | FailedAt nat

fun executeLoop ::
  "(nat \<Rightarrow> bool) \<Rightarrow> (nat \<Rightarrow> PlanStep \<Rightarrow> StepResult list \<Rightarrow> Attempt) \<Rightarrow>
   (nat \<Rightarrow> PlanStep \<Rightarrow> string \<Rightarrow> Attempt) \<Rightarrow> nat list \<Rightarrow> nat \<Rightarrow> ExecState \<Rightarrow>
   LoopExit \<times> ExecState" where
  "executeLoop aborted chat rechat [] k st = (Exhausted, st)"
| "executeLoop aborted chat rechat (p # rest) k st =
     (if aborted k then (Aborted, st)
      else
        (let st1 = setStatus p Active st;
             result = executeStep chat k (planSteps st1 ! p) (results st1);
             st2 = st1\<lparr>results := results st1 @ [result]\<rparr>;
             st3 = setStatus p (if result_status result = Success then Done else Failed) st2
         in if result_status result = Failure then
              (let retryResult = retryStep rechat k (planSteps st3 ! p)
                     (case result_error result of None \<Rightarrow> ''Unknown error'' | Some e \<Rightarrow> e)
               in if result_status retryResult = Failure
                  then (FailedAt p, skipDependents (index (planSteps st3 ! p)) st3)
                  else executeLoop aborted chat rechat rest (Suc k)
                         (setStatus p Done
                            (st3\<lparr>results := (results st3)[length (results st3) - 1 := retryResult]\<rparr>)))
            else executeLoop aborted chat rechat rest (Suc k) st3))"

definition runPlan ::
  "(nat \<Rightarrow> bool) \<Rightarrow> (nat \<Rightarrow> PlanStep \<Rightarrow> StepResult list \<Rightarrow> Attempt) \<Rightarrow>
   (nat \<Rightarrow> PlanStep \<Rightarrow> string \<Rightarrow> Attempt) \<Rightarrow> PlanStep list \<Rightarrow> LoopExit \<times> ExecState" where
  "runPlan aborted chat rechat steps0 =
     executeLoop aborted chat rechat (topologicalSortRefs steps0) 0
       \<lparr>planSteps = steps0, results = [], statusWrites = []\<rparr>"

definition executePlan ::
  "(nat \<Rightarrow> bool) \<Rightarrow> (nat \<Rightarrow> PlanStep \<Rightarrow> StepResult list \<Rightarrow> Attempt) \<Rightarrow>
   (nat \<Rightarrow> PlanStep \<Rightarrow> string \<Rightarrow> Attempt) \<Rightarrow> PlanStep list \<Rightarrow> StepResult list" where
  "executePlan aborted chat rechat steps0 = results (snd (runPlan aborted chat rechat steps0))"

text \<open>
  The dependency relation of a plan, on step indices: \<open>(d, i)\<close> when the step of index
  \<open>i\<close> lists \<open>d\<close> in its \<open>dependsOn\<close>.
\<close>

definition dep_rel :: "PlanStep list \<Rightarrow> (int \<times> int) set" where
  "dep_rel steps0 = set (concat (map (\<lambda>s. map (\<lambda>d. (d, index s)) (dependsOn s)) steps0))"

definition mk_step :: "int \<Rightarrow> string \<Rightarrow> int list \<Rightarrow> PlanStep" where
  "mk_step i l deps = \<lparr>index = i, label = l, description = [], dependsOn = deps,
     toolHints = [], status = Pending\<rparr>"

text \<open>The diamond plan of the repository's scheduler test, and a plan with a cycle.\<close>

definition diamond :: "PlanStep list" where
  "diamond = [mk_step 0 ''A'' [], mk_step 1 ''B'' [0], mk_step 2 ''C'' [0], mk_step 3 ''D'' [1, 2]]"

definition cyclic_plan :: "PlanStep list" where
  "cyclic_plan = [mk_step 0 ''A'' [], mk_step 1 ''B'' [2], mk_step 2 ''C'' [1],
                  mk_step 3 ''D'' [2], mk_step 4 ''E'' [0]]"


definition edges_into :: "PlanStep list \<Rightarrow> int \<Rightarrow> int list" where
  "edges_into steps0 c =
     concat (map (\<lambda>s. replicate (count_list (dependsOn s) c) (index s)) steps0)"

lemma neighbors_update:
  "neighbors (AList.update k v adj) c = (if c = k then v else neighbors adj c)"
  by (simp add: neighbors_def update_conv')

lemma neighbors_addEdges:
  "neighbors (addEdges idx deps adj) c = neighbors adj c @ replicate (count_list deps c) idx"
proof (induction deps arbitrary: adj)
  case Nil
  show ?case by (simp add: addEdges_def)
next
  case (Cons d deps)
  have "addEdges idx (d # deps) adj =
        addEdges idx deps (AList.update d (neighbors adj d @ [idx]) adj)"
    by (simp add: addEdges_def)
  then show ?case
    by (simp add: Cons.IH neighbors_update replicate_app_Cons_same)
qed

lemma neighbors_ensure:
  "neighbors (if map_of adj k = None then AList.update k [] adj else adj) c = neighbors adj c"
  by (auto simp: neighbors_update) (simp add: neighbors_def)

lemma buildGraph_fold_adjacency:
  "neighbors (snd (fold (\<lambda>step (inDegree, adjacency).
             (AList.update (index step) (int (length (dependsOn step))) inDegree,
              addEdges (index step) (dependsOn step)
                (if map_of adjacency (index step) = None
                 then AList.update (index step) [] adjacency else adjacency)))
          steps0 (i0, a0))) c = neighbors a0 c @ edges_into steps0 c"
proof (induction steps0 arbitrary: i0 a0)
  case Nil
  show ?case by (simp add: edges_into_def)
next
  case (Cons s steps0)
  show ?case
    by (simp add: Cons.IH neighbors_addEdges neighbors_ensure edges_into_def)
qed

lemma buildGraph_adjacency:
  "neighbors (snd (buildGraph steps0)) c = edges_into steps0 c"
  unfolding buildGraph_def by (simp add: buildGraph_fold_adjacency) (simp add: neighbors_def)

lemma update_fresh: "k \<notin> fst ` set al \<Longrightarrow> AList.update k v al = al @ [(k, v)]"
  by (induction al) auto

lemma buildGraph_fold_inDegree:
  "distinct (map fst i0 @ map index steps0) \<Longrightarrow>
   fst (fold (\<lambda>step (inDegree, adjacency).
             (AList.update (index step) (int (length (dependsOn step))) inDegree,
              addEdges (index step) (dependsOn step)
                (if map_of adjacency (index step) = None
                 then AList.update (index step) [] adjacency else adjacency)))
          steps0 (i0, a0)) =
   i0 @ map (\<lambda>s. (index s, int (length (dependsOn s)))) steps0"
proof (induction steps0 arbitrary: i0 a0)
  case Nil
  show ?case by simp
next
  case (Cons s steps0)
  have f: "index s \<notin> fst ` set i0" using Cons.prems by auto
  have d: "distinct (map fst (i0 @ [(index s, int (length (dependsOn s)))]) @ map index steps0)"
    using Cons.prems by auto
  show ?case
    using Cons.IH[OF d] by (simp add: update_fresh[OF f])
qed

lemma buildGraph_inDegree:
  "distinct (map index steps0) \<Longrightarrow>
   fst (buildGraph steps0) = map (\<lambda>s. (index s, int (length (dependsOn s)))) steps0"
  unfolding buildGraph_def using buildGraph_fold_inDegree[of "[]" steps0 "[]"] by simp

lemma index_inj:
  "distinct (map index steps0) \<Longrightarrow> p < length steps0 \<Longrightarrow> q < length steps0 \<Longrightarrow>
   index (steps0 ! p) = index (steps0 ! q) \<Longrightarrow> p = q"
  using nth_eq_iff_index_eq[of "map index steps0" p q] by simp

lemma map_of_stepMap_fold:
  "distinct (map index steps0) \<Longrightarrow> set ps \<subseteq> {..<length steps0} \<Longrightarrow> p \<in> set ps \<Longrightarrow>
   map_of (fold (\<lambda>p m. AList.update (index (steps0 ! p)) p m) ps m0) (index (steps0 ! p)) = Some p"
proof (induction ps rule: rev_induct)
  case Nil
  then show ?case by simp
next
  case (snoc q ps)
  show ?case
  proof (cases "q = p")
    case True
    then show ?thesis by (simp add: update_conv')
  next
    case False
    then have "p \<in> set ps" using snoc.prems by auto
    moreover have "index (steps0 ! q) \<noteq> index (steps0 ! p)"
    proof -
      have "q < length steps0" "p < length steps0" using snoc.prems by auto
      then show ?thesis using index_inj[OF snoc.prems(1)] False by blast
    qed
    ultimately show ?thesis using snoc by (simp add: update_conv')
  qed
qed

lemma buildStepMap_lookup:
  "distinct (map index steps0) \<Longrightarrow> p < length steps0 \<Longrightarrow>
   map_of (buildStepMap steps0) (index (steps0 ! p)) = Some p"
  unfolding buildStepMap_def by (rule map_of_stepMap_fold) auto

lemma relax_fold:
  "degreeOf (fst (fold relax ns (inDegree, queue))) k = degreeOf inDegree k - int (count_list ns k) \<and>
   (\<exists>pushed. snd (fold relax ns (inDegree, queue)) = queue @ pushed \<and> distinct pushed \<and>
      set pushed = {k \<in> set ns. 1 \<le> degreeOf inDegree k \<and> degreeOf inDegree k \<le> int (count_list ns k)})"
proof (induction ns arbitrary: inDegree queue k)
  case Nil
  show ?case by simp
next
  case (Cons n ns)
  let ?d = "degreeOf inDegree n"
  let ?i1 = "AList.update n (?d - 1) inDegree"
  let ?q1 = "if ?d - 1 = 0 then queue @ [n] else queue"
  have r: "relax n (inDegree, queue) = (?i1, ?q1)"
    by (simp add: relax_def Let_def)
  have d1: "\<And>k. degreeOf ?i1 k = (if k = n then ?d - 1 else degreeOf inDegree k)"
    by (simp add: degreeOf_update)
  from Cons.IH[of ?i1 ?q1] obtain pushed where
    deg: "\<And>k. degreeOf (fst (fold relax ns (?i1, ?q1))) k = degreeOf ?i1 k - int (count_list ns k)"
    and p: "snd (fold relax ns (?i1, ?q1)) = ?q1 @ pushed" "distinct pushed"
      "set pushed = {k \<in> set ns. 1 \<le> degreeOf ?i1 k \<and> degreeOf ?i1 k \<le> int (count_list ns k)}"
    by blast
  have 1: "degreeOf (fst (fold relax (n # ns) (inDegree, queue))) k =
      degreeOf inDegree k - int (count_list (n # ns) k)"
    using deg[of k] by (simp add: r d1)
  let ?pushed = "(if ?d = 1 then [n] else []) @ pushed"
  have 2: "snd (fold relax (n # ns) (inDegree, queue)) = queue @ ?pushed"
    using p(1) by (simp add: r)
  have 3: "distinct ?pushed"
    using p(2,3) by (auto simp: d1)
  have cnt: "n \<in> set ns \<longleftrightarrow> 1 \<le> int (count_list ns n)"
    using count_list_0_iff[of ns n] by (cases "count_list ns n") auto
  have 4: "set ?pushed = {k \<in> set (n # ns). 1 \<le> degreeOf inDegree k \<and>
      degreeOf inDegree k \<le> int (count_list (n # ns) k)}"
  proof (intro set_eqI iffI)
    fix k assume k: "k \<in> set ?pushed"
    show "k \<in> {k \<in> set (n # ns). 1 \<le> degreeOf inDegree k \<and>
      degreeOf inDegree k \<le> int (count_list (n # ns) k)}"
    proof (cases "k = n")
      case True
      from k p(3) have "?d = 1 \<or> (1 \<le> ?d - 1 \<and> ?d - 1 \<le> int (count_list ns n))"
        by (auto simp: d1 True split: if_splits)
      then show ?thesis using True by auto
    next
      case False
      with k p(3) have "k \<in> set ns \<and> 1 \<le> degreeOf inDegree k \<and>
          degreeOf inDegree k \<le> int (count_list ns k)"
        by (auto simp: d1 split: if_splits)
      then show ?thesis using False by simp
    qed
  next
    fix k assume k: "k \<in> {k \<in> set (n # ns). 1 \<le> degreeOf inDegree k \<and>
      degreeOf inDegree k \<le> int (count_list (n # ns) k)}"
    show "k \<in> set ?pushed"
    proof (cases "k = n")
      case True
      with k have b: "1 \<le> ?d" "?d \<le> int (count_list ns n) + 1" by auto
      show ?thesis
      proof (cases "?d = 1")
        case True
        then show ?thesis using \<open>k = n\<close> by simp
      next
        case False
        with b have "1 \<le> ?d - 1" "?d - 1 \<le> int (count_list ns n)" by auto
        moreover then have "n \<in> set ns" using cnt by linarith
        ultimately have "n \<in> set pushed" unfolding p(3) by (simp add: d1)
        then show ?thesis using True by simp
      qed
    next
      case False
      with k have "k \<in> set ns" "1 \<le> degreeOf ?i1 k" "degreeOf ?i1 k \<le> int (count_list ns k)"
        by (auto simp: d1)
      then have "k \<in> set pushed" unfolding p(3) by simp
      then show ?thesis by simp
    qed
  qed
  from 1 2 3 4 show ?case by blast
qed

definition processed :: "PlanStep list \<Rightarrow> nat list \<Rightarrow> int list" where
  "processed steps0 refs = map (\<lambda>p. index (steps0 ! p)) refs"

definition kahn_inv :: "PlanStep list \<Rightarrow> int list \<Rightarrow> (int \<times> int) list \<Rightarrow> nat list \<Rightarrow> bool" where
  "kahn_inv steps0 queue inDegree refs =
     (set refs \<subseteq> {..<length steps0} \<and>
      distinct (processed steps0 refs @ queue) \<and>
      set queue \<subseteq> index ` set steps0 \<and>
      (\<forall>s \<in> set steps0. degreeOf inDegree (index s) =
          int (length (filter (\<lambda>d. d \<notin> set (processed steps0 refs)) (dependsOn s)))) \<and>
      (\<forall>s \<in> set steps0. index s \<in> set (processed steps0 refs) \<union> set queue \<longleftrightarrow>
          set (dependsOn s) \<subseteq> set (processed steps0 refs)) \<and>
      (\<forall>i < length refs. set (dependsOn (steps0 ! (refs ! i))) \<subseteq>
          set (take i (processed steps0 refs))))"

lemma count_list_replicate: "count_list (replicate n x) y = (if x = y then n else 0)"
  by (induction n) auto

lemma index_fresh:
  "index a \<notin> index ` set steps0 \<Longrightarrow> s \<in> set steps0 \<Longrightarrow> index s \<noteq> index a"
  by (metis imageI)

lemma set_edges_into:
  "t \<in> set (edges_into steps0 c) \<longleftrightarrow> (\<exists>s \<in> set steps0. index s = t \<and> c \<in> set (dependsOn s))"
  by (auto simp: edges_into_def count_list_0_iff)

lemma count_edges_into:
  "distinct (map index steps0) \<Longrightarrow> s \<in> set steps0 \<Longrightarrow>
   count_list (edges_into steps0 c) (index s) = count_list (dependsOn s) c"
proof (induction steps0)
  case Nil
  then show ?case by simp
next
  case (Cons a steps0)
  have e: "edges_into (a # steps0) c =
      replicate (count_list (dependsOn a) c) (index a) @ edges_into steps0 c"
    by (simp add: edges_into_def)
  show ?case
  proof (cases "s = a")
    case True
    have "index a \<notin> index ` set steps0" using Cons.prems(1) by simp
    have "index a \<notin> set (edges_into steps0 c)"
    proof
      assume "index a \<in> set (edges_into steps0 c)"
      then obtain s' where "s' \<in> set steps0" "index s' = index a"
        unfolding set_edges_into by blast
      then have "index a \<in> index ` set steps0" by (metis imageI)
      then show False using \<open>index a \<notin> index ` set steps0\<close> by simp
    qed
    then have "count_list (edges_into steps0 c) (index a) = 0"
      by (simp add: count_list_0_iff)
    then show ?thesis using True by (simp add: e count_list_replicate)
  next
    case False
    then have s0: "s \<in> set steps0" using Cons.prems by auto
    have "index a \<notin> index ` set steps0" using Cons.prems(1) by simp
    from index_fresh[OF this s0] s0 have s: "s \<in> set steps0" "index s \<noteq> index a" by auto
    then show ?thesis using Cons by (simp add: e count_list_replicate)
  qed
qed

lemma filter_insert_count:
  "c \<notin> P \<Longrightarrow>
   int (length (filter (\<lambda>d. d \<notin> insert c P) ds)) =
   int (length (filter (\<lambda>d. d \<notin> P) ds)) - int (count_list ds c)"
  by (induction ds) auto

lemma filter_notin_empty: "filter (\<lambda>d. d \<notin> P) ds = [] \<longleftrightarrow> set ds \<subseteq> P"
  by (auto simp: filter_empty_conv)

lemma index_unique:
  "distinct (map index steps0) \<Longrightarrow> s \<in> set steps0 \<Longrightarrow> s' \<in> set steps0 \<Longrightarrow>
   index s = index s' \<Longrightarrow> s = s'"
  by (metis distinct_map inj_onD)

lemma processed_snoc: "processed steps0 (refs @ [p]) = processed steps0 refs @ [index (steps0 ! p)]"
  by (simp add: processed_def)

lemma kahn_step:
  assumes dist: "distinct (map index steps0)"
    and inv: "kahn_inv steps0 (c # queue) inDegree refs"
    and p: "p < length steps0" "index (steps0 ! p) = c"
    and rel: "relaxed = fold relax (edges_into steps0 c) (inDegree, queue)"
  shows "kahn_inv steps0 (snd relaxed) (fst relaxed) (refs @ [p])"
proof -
  let ?P = "set (processed steps0 refs)"
  let ?P' = "set (processed steps0 (refs @ [p]))"
  have P': "?P' = insert c ?P" using p(2) by (simp add: processed_snoc)
  from inv have refs: "set refs \<subseteq> {..<length steps0}"
    and d: "distinct (processed steps0 refs @ c # queue)"
    and q: "set (c # queue) \<subseteq> index ` set steps0"
    and deg: "\<And>s. s \<in> set steps0 \<Longrightarrow> degreeOf inDegree (index s) =
          int (length (filter (\<lambda>d. d \<notin> ?P) (dependsOn s)))"
    and ready: "\<And>s. s \<in> set steps0 \<Longrightarrow>
          (index s \<in> ?P \<union> set (c # queue)) = (set (dependsOn s) \<subseteq> ?P)"
    and ord: "\<And>i. i < length refs \<Longrightarrow> set (dependsOn (steps0 ! (refs ! i))) \<subseteq>
          set (take i (processed steps0 refs))"
    unfolding kahn_inv_def by blast+
  have cP: "c \<notin> ?P" using d by auto
  from relax_fold[of "edges_into steps0 c" inDegree queue] rel
  obtain pushed where
    deg': "\<And>k. degreeOf (fst relaxed) k =
        degreeOf inDegree k - int (count_list (edges_into steps0 c) k)"
    and push: "snd relaxed = queue @ pushed" "distinct pushed"
      "set pushed = {k \<in> set (edges_into steps0 c). 1 \<le> degreeOf inDegree k \<and>
          degreeOf inDegree k \<le> int (count_list (edges_into steps0 c) k)}"
    by blast
  have len': "\<And>s. s \<in> set steps0 \<Longrightarrow>
      int (length (filter (\<lambda>d. d \<notin> ?P') (dependsOn s))) =
      degreeOf inDegree (index s) - int (count_list (edges_into steps0 c) (index s))"
    using filter_insert_count[OF cP] by (simp add: P' deg count_edges_into[OF dist])
  have pushed_iff: "\<And>s. s \<in> set steps0 \<Longrightarrow>
      index s \<in> set pushed \<longleftrightarrow> c \<in> set (dependsOn s) \<and> set (dependsOn s) \<subseteq> ?P'"
  proof -
    fix s assume s: "s \<in> set steps0"
    have e: "index s \<in> set (edges_into steps0 c) \<longleftrightarrow> c \<in> set (dependsOn s)"
      using index_unique[OF dist _ s] s unfolding set_edges_into by blast
    have z: "set (dependsOn s) \<subseteq> ?P' \<longleftrightarrow>
        degreeOf inDegree (index s) - int (count_list (edges_into steps0 c) (index s)) = 0"
      using len'[OF s] filter_notin_empty[of ?P' "dependsOn s"] by auto
    have nonneg: "0 \<le> degreeOf inDegree (index s) - int (count_list (edges_into steps0 c) (index s))"
      using len'[OF s] by linarith
    have pos: "c \<in> set (dependsOn s) \<Longrightarrow> 1 \<le> degreeOf inDegree (index s)"
    proof -
      assume "c \<in> set (dependsOn s)"
      then have "\<not> set (dependsOn s) \<subseteq> ?P" using cP by blast
      then have "filter (\<lambda>d. d \<notin> ?P) (dependsOn s) \<noteq> []"
        using filter_notin_empty[of ?P "dependsOn s"] by simp
      then show ?thesis using deg[OF s] by (cases "filter (\<lambda>d. d \<notin> ?P) (dependsOn s)") auto
    qed
    show "index s \<in> set pushed \<longleftrightarrow> c \<in> set (dependsOn s) \<and> set (dependsOn s) \<subseteq> ?P'"
      unfolding push(3) using e z nonneg pos by auto
  qed
  have pushed_steps: "set pushed \<subseteq> index ` set steps0"
    unfolding push(3) set_edges_into by (auto intro: imageI)
  have pushed_new: "set pushed \<inter> (?P \<union> set (c # queue)) = {}"
  proof (rule ccontr)
    assume "set pushed \<inter> (?P \<union> set (c # queue)) \<noteq> {}"
    then obtain t where t: "t \<in> set pushed" "t \<in> ?P \<union> set (c # queue)" by blast
    then obtain s where s: "s \<in> set steps0" "index s = t" using pushed_steps by auto
    from pushed_iff[OF s(1)] t(1) s(2) have "c \<in> set (dependsOn s)" by simp
    moreover from ready[OF s(1)] t(2) s(2) have "set (dependsOn s) \<subseteq> ?P" by simp
    ultimately show False using cP by blast
  qed
  have 1: "set (refs @ [p]) \<subseteq> {..<length steps0}" using refs p(1) by simp
  have 2: "distinct (processed steps0 (refs @ [p]) @ snd relaxed)"
    using d push(1,2) pushed_new p(2) by (auto simp: processed_snoc)
  have 3: "set (snd relaxed) \<subseteq> index ` set steps0"
    using q pushed_steps push(1) by auto
  have 4: "\<forall>s \<in> set steps0. degreeOf (fst relaxed) (index s) =
      int (length (filter (\<lambda>d. d \<notin> ?P') (dependsOn s)))"
    using len' deg' by simp
  have 5: "\<forall>s \<in> set steps0. index s \<in> ?P' \<union> set (snd relaxed) \<longleftrightarrow>
      set (dependsOn s) \<subseteq> ?P'"
  proof
    fix s assume s: "s \<in> set steps0"
    show "index s \<in> ?P' \<union> set (snd relaxed) \<longleftrightarrow> set (dependsOn s) \<subseteq> ?P'"
    proof
      assume "index s \<in> ?P' \<union> set (snd relaxed)"
      then have "index s \<in> ?P \<union> set (c # queue) \<or> index s \<in> set pushed"
        using push(1) P' by auto
      then show "set (dependsOn s) \<subseteq> ?P'"
        using ready[OF s] pushed_iff[OF s] P' by auto
    next
      assume a: "set (dependsOn s) \<subseteq> ?P'"
      show "index s \<in> ?P' \<union> set (snd relaxed)"
      proof (cases "set (dependsOn s) \<subseteq> ?P")
        case True
        then have "index s \<in> ?P \<union> set (c # queue)" using ready[OF s] by simp
        then show ?thesis using P' push(1) by auto
      next
        case False
        then have "c \<in> set (dependsOn s)" using a P' by auto
        then have "index s \<in> set pushed" using pushed_iff[OF s] a by simp
        then show ?thesis using push(1) by simp
      qed
    qed
  qed
  have 6: "\<forall>i < length (refs @ [p]). set (dependsOn (steps0 ! ((refs @ [p]) ! i))) \<subseteq>
      set (take i (processed steps0 (refs @ [p])))"
  proof (intro allI impI)
    fix i assume i: "i < length (refs @ [p])"
    show "set (dependsOn (steps0 ! ((refs @ [p]) ! i))) \<subseteq>
      set (take i (processed steps0 (refs @ [p])))"
    proof (cases "i < length refs")
      case True
      then show ?thesis using ord[OF True]
        by (simp add: processed_snoc nth_append) (simp add: processed_def)
    next
      case False
      then have il: "i = length refs" using i by simp
      have "steps0 ! p \<in> set steps0" using p(1) by simp
      from ready[OF this] p(2) have "set (dependsOn (steps0 ! p)) \<subseteq> ?P" by simp
      then show ?thesis using il by (simp add: processed_snoc) (simp add: processed_def)
    qed
  qed
  from 1 2 3 4 5 6 show ?thesis unfolding kahn_inv_def by blast
qed

lemma kahn_loop_inv:
  assumes dist: "distinct (map index steps0)"
  shows "(\<forall>c. neighbors adjacency c = edges_into steps0 c) \<Longrightarrow>
         (\<forall>p < length steps0. map_of stepMap (index (steps0 ! p)) = Some p) \<Longrightarrow>
         kahn_inv steps0 queue inDegree refs \<Longrightarrow>
         \<exists>inDegree'. kahn_inv steps0 [] inDegree' (kahnLoop adjacency stepMap queue inDegree refs)"
proof (induction adjacency stepMap queue inDegree refs rule: kahnLoop.induct)
  case (1 adjacency stepMap inDegree sortedRefs)
  then show ?case by auto
next
  case (2 adjacency stepMap current queue inDegree sortedRefs)
  note adj = "2.prems"(1) and sm = "2.prems"(2) and inv = "2.prems"(3)
  from inv have "current \<in> index ` set steps0" by (auto simp: kahn_inv_def)
  then obtain p where p: "p < length steps0" "index (steps0 ! p) = current"
    by (auto simp: in_set_conv_nth)
  have m: "map_of stepMap current = Some p" using sm p by auto
  let ?relaxed = "fold relax (neighbors adjacency current) (inDegree, queue)"
  have "kahn_inv steps0 (snd ?relaxed) (fst ?relaxed) (sortedRefs @ [p])"
    using kahn_step[OF dist inv p] adj by simp
  from "2.IH"[OF refl refl adj sm] this m show ?case by (simp add: Let_def)
qed

lemma map_of_by_index:
  "distinct (map index steps0) \<Longrightarrow> s \<in> set steps0 \<Longrightarrow>
   map_of (map (\<lambda>s. (index s, f s)) steps0) (index s) = Some (f s)"
proof (induction steps0)
  case Nil
  then show ?case by simp
next
  case (Cons a steps0)
  show ?case
  proof (cases "s = a")
    case True
    then show ?thesis by simp
  next
    case False
    then have s0: "s \<in> set steps0" using Cons.prems by auto
    have "index a \<notin> index ` set steps0" using Cons.prems(1) by simp
    from index_fresh[OF this s0] Cons.IH s0 Cons.prems(1) show ?thesis by simp
  qed
qed

lemma kahn_inv_init:
  assumes dist: "distinct (map index steps0)"
  shows "kahn_inv steps0
           (map fst (filter (\<lambda>(idx, degree). degree = 0) (fst (buildGraph steps0))))
           (fst (buildGraph steps0)) []"
proof -
  let ?I = "map (\<lambda>s. (index s, int (length (dependsOn s)))) steps0"
  have q: "map fst (filter (\<lambda>(idx, degree). degree = 0) ?I) =
        map index (filter (\<lambda>s. dependsOn s = []) steps0)"
    by (induction steps0) auto
  have dq: "distinct (map index (filter (\<lambda>s. dependsOn s = []) steps0))"
    using dist by (rule distinct_map_filter)
  have deg: "\<And>s. s \<in> set steps0 \<Longrightarrow> degreeOf ?I (index s) = int (length (dependsOn s))"
    using map_of_by_index[OF dist, where f = "\<lambda>s. int (length (dependsOn s))"]
    by (simp add: degreeOf_def)
  have ready: "\<And>s. s \<in> set steps0 \<Longrightarrow>
      index s \<in> set (map index (filter (\<lambda>s. dependsOn s = []) steps0)) \<longleftrightarrow> dependsOn s = []"
  proof -
    fix s assume s: "s \<in> set steps0"
    show "index s \<in> set (map index (filter (\<lambda>s. dependsOn s = []) steps0)) \<longleftrightarrow> dependsOn s = []"
    proof
      assume "index s \<in> set (map index (filter (\<lambda>s. dependsOn s = []) steps0))"
      then obtain s' where "s' \<in> set steps0" "dependsOn s' = []" "index s' = index s" by auto
      then show "dependsOn s = []" using index_unique[OF dist _ s] by auto
    next
      assume "dependsOn s = []"
      then have "s \<in> set (filter (\<lambda>s. dependsOn s = []) steps0)" using s by simp
      then show "index s \<in> set (map index (filter (\<lambda>s. dependsOn s = []) steps0))"
        by (metis imageI set_map)
    qed
  qed
  have sub: "set (map index (filter (\<lambda>s. dependsOn s = []) steps0)) \<subseteq> index ` set steps0"
    by auto
  show ?thesis
    unfolding buildGraph_inDegree[OF dist] q kahn_inv_def
    using dq deg ready sub by (simp add: processed_def)
qed

definition sorted_spec :: "PlanStep list \<Rightarrow> nat list \<Rightarrow> bool" where
  "sorted_spec steps0 refs =
     (set refs \<subseteq> {..<length steps0} \<and> distinct (processed steps0 refs) \<and>
      (\<forall>s \<in> set steps0. index s \<in> set (processed steps0 refs) \<longleftrightarrow>
          set (dependsOn s) \<subseteq> set (processed steps0 refs)) \<and>
      (\<forall>i < length refs. set (dependsOn (steps0 ! (refs ! i))) \<subseteq>
          set (take i (processed steps0 refs))))"

lemma topologicalSortRefs_spec:
  assumes dist: "distinct (map index steps0)"
  shows "sorted_spec steps0 (topologicalSortRefs steps0)"
proof -
  obtain inDegree adjacency where g: "buildGraph steps0 = (inDegree, adjacency)"
    by (cases "buildGraph steps0")
  have adj: "\<And>c. neighbors adjacency c = edges_into steps0 c"
    using buildGraph_adjacency[of steps0] g by simp
  have init: "kahn_inv steps0 (map fst (filter (\<lambda>(idx, degree). degree = 0) inDegree)) inDegree []"
    using kahn_inv_init[OF dist] g by simp
  have sm: "\<forall>p < length steps0. map_of (buildStepMap steps0) (index (steps0 ! p)) = Some p"
    using buildStepMap_lookup[OF dist] by simp
  from kahn_loop_inv[OF dist _ sm init, of adjacency] adj
  show ?thesis
    by (auto simp: topologicalSortRefs_def g sorted_spec_def kahn_inv_def)
qed

lemma dep_rel_iff:
  "(d, t) \<in> dep_rel steps0 \<longleftrightarrow> (\<exists>s \<in> set steps0. index s = t \<and> d \<in> set (dependsOn s))"
  by (auto simp: dep_rel_def)

lemma processed_nth:
  "i < length refs \<Longrightarrow> processed steps0 refs ! i = index (steps0 ! (refs ! i))"
  by (simp add: processed_def)

lemma dep_before:
  assumes dist: "distinct (map index steps0)" and spec: "sorted_spec steps0 refs"
    and e: "(a, b) \<in> dep_rel steps0" and i: "i < length refs" "processed steps0 refs ! i = b"
  shows "\<exists>j < i. processed steps0 refs ! j = a"
proof -
  from e obtain s where s: "s \<in> set steps0" "index s = b" "a \<in> set (dependsOn s)"
    unfolding dep_rel_iff by blast
  have "refs ! i \<in> set refs" using i(1) by simp
  moreover have "set refs \<subseteq> {..<length steps0}" using spec by (simp add: sorted_spec_def)
  ultimately have r: "refs ! i < length steps0" by blast
  then have "steps0 ! (refs ! i) \<in> set steps0" by simp
  moreover have "index (steps0 ! (refs ! i)) = index s"
    using i s(2) by (simp add: processed_nth)
  ultimately have "steps0 ! (refs ! i) = s" using index_unique[OF dist _ s(1)] by blast
  then have "a \<in> set (take i (processed steps0 refs))"
    using spec i(1) s(3) by (auto simp: sorted_spec_def)
  then obtain j where "j < length (take i (processed steps0 refs))"
    "take i (processed steps0 refs) ! j = a"
    by (auto simp: in_set_conv_nth)
  then show ?thesis by (intro exI[of _ j]) simp
qed

lemma trans_dep_before:
  assumes dist: "distinct (map index steps0)" and spec: "sorted_spec steps0 refs"
  shows "(a, b) \<in> (dep_rel steps0)\<^sup>+ \<Longrightarrow> i < length refs \<Longrightarrow>
         processed steps0 refs ! i = b \<Longrightarrow> \<exists>j < i. processed steps0 refs ! j = a"
proof (induction arbitrary: i rule: trancl_induct)
  case (base y)
  then show ?case using dep_before[OF dist spec] by blast
next
  case (step y z)
  from dep_before[OF dist spec step.hyps(2) step.prems]
  obtain j where j: "j < i" "processed steps0 refs ! j = y" by blast
  then have "j < length refs" using step.prems(1) by simp
  from step.IH[OF this j(2)] obtain k where k: "k < j" "processed steps0 refs ! k = a" by blast
  then have "k < i" using j(1) by simp
  then show ?case using k(2) by blast
qed

lemma cycle_excluded:
  assumes dist: "distinct (map index steps0)" and spec: "sorted_spec steps0 refs"
    and cyc: "(c, c) \<in> (dep_rel steps0)\<^sup>+" and down: "(c, t) \<in> (dep_rel steps0)\<^sup>*"
  shows "t \<notin> set (processed steps0 refs)"
proof
  assume "t \<in> set (processed steps0 refs)"
  then obtain i where i: "i < length refs" "processed steps0 refs ! i = t"
    by (auto simp: in_set_conv_nth processed_def)
  have "\<exists>k < length refs. processed steps0 refs ! k = c"
  proof (cases "c = t")
    case True
    then show ?thesis using i by blast
  next
    case False
    then have "(c, t) \<in> (dep_rel steps0)\<^sup>+" using down by (meson rtranclD)
    from trans_dep_before[OF dist spec this i]
    obtain j where j: "j < i" "processed steps0 refs ! j = c" by blast
    then have "j < length refs" using i(1) by simp
    then show ?thesis using j(2) by blast
  qed
  then obtain k where k: "k < length refs" "processed steps0 refs ! k = c" by blast
  from trans_dep_before[OF dist spec cyc k]
  obtain j where j: "j < k" "processed steps0 refs ! j = c" by blast
  have "distinct (processed steps0 refs)" using spec by (simp add: sorted_spec_def)
  moreover have "j < length (processed steps0 refs)" "k < length (processed steps0 refs)"
    using j(1) k(1) by (simp_all add: processed_def)
  ultimately have "j = k"
    using j(2) k(2) nth_eq_iff_index_eq[of "processed steps0 refs" j k] by simp
  then show False using j(1) by simp
qed

lemma topologicalSort_index:
  "map index (topologicalSort steps0) = processed steps0 (topologicalSortRefs steps0)"
  by (simp add: topologicalSort_def processed_def)

lemma topologicalSort_subset:
  "distinct (map index steps0) \<Longrightarrow> set (topologicalSort steps0) \<subseteq> set steps0"
  using topologicalSortRefs_spec[of steps0]
  by (auto simp: topologicalSort_def sorted_spec_def)

text \<open>
  C7. In a plan with unique step indices, a step that lies on a cycle of the dependsOn
  graph (\<open>c\<close> depends on itself through one or more edges and is the step's index), or
  depends on such a step through any number of edges, is not in the list that
  \<open>topologicalSort\<close> returns; the function returns a list of the plan's steps all the same,
  it has no error result.
\<close>

theorem cycle_steps_excluded:
  assumes "distinct (map index steps0)"
    and "(c, c) \<in> (dep_rel steps0)\<^sup>+"
    and "(c, index s) \<in> (dep_rel steps0)\<^sup>*"
  shows "s \<notin> set (topologicalSort steps0) \<and> set (topologicalSort steps0) \<subseteq> set steps0"
proof -
  have "index s \<notin> set (map index (topologicalSort steps0))"
    unfolding topologicalSort_index
    using cycle_excluded[OF assms(1) topologicalSortRefs_spec[OF assms(1)] assms(2,3)] .
  then have "s \<notin> set (topologicalSort steps0)" by (metis imageI set_map)
  then show ?thesis using topologicalSort_subset[OF assms(1)] by simp
qed

lemma all_processed:
  assumes dist: "distinct (map index steps0)" and spec: "sorted_spec steps0 refs"
    and closed: "\<forall>s \<in> set steps0. set (dependsOn s) \<subseteq> index ` set steps0"
    and acyc: "acyclic (dep_rel steps0)"
  shows "t \<in> index ` set steps0 \<Longrightarrow> t \<in> set (processed steps0 refs)"
proof -
  have "finite (dep_rel steps0)" by (simp add: dep_rel_def)
  then have wf: "wf (dep_rel steps0)" using acyc by (rule finite_acyclic_wf)
  show "t \<in> index ` set steps0 \<Longrightarrow> t \<in> set (processed steps0 refs)"
  proof (induction t rule: wf_induct_rule[OF wf])
    case (1 t)
    then obtain s where s: "s \<in> set steps0" "index s = t" by auto
    have "set (dependsOn s) \<subseteq> set (processed steps0 refs)"
    proof
      fix d assume d: "d \<in> set (dependsOn s)"
      then have "(d, t) \<in> dep_rel steps0" using s unfolding dep_rel_iff by blast
      moreover have "d \<in> index ` set steps0" using closed s(1) d by blast
      ultimately show "d \<in> set (processed steps0 refs)" using "1.IH" by blast
    qed
    then show ?case using spec s by (auto simp: sorted_spec_def)
  qed
qed

lemma refs_permutation:
  assumes dist: "distinct (map index steps0)" and spec: "sorted_spec steps0 refs"
    and closed: "\<forall>s \<in> set steps0. set (dependsOn s) \<subseteq> index ` set steps0"
    and acyc: "acyclic (dep_rel steps0)"
  shows "mset refs = mset [0..<length steps0]"
proof -
  have "distinct (map (\<lambda>p. index (steps0 ! p)) refs)"
    using spec by (simp add: sorted_spec_def processed_def)
  then have d: "distinct refs" by (simp add: distinct_map)
  have sub: "set refs \<subseteq> {..<length steps0}" using spec by (simp add: sorted_spec_def)
  have sup: "{..<length steps0} \<subseteq> set refs"
  proof
    fix p assume "p \<in> {..<length steps0}"
    then have p: "p < length steps0" by simp
    then have "steps0 ! p \<in> set steps0" by simp
    then have "index (steps0 ! p) \<in> index ` set steps0" by (rule imageI)
    from all_processed[OF dist spec closed acyc this]
    have "index (steps0 ! p) \<in> (\<lambda>q. index (steps0 ! q)) ` set refs"
      by (simp add: processed_def)
    then obtain q where q: "q \<in> set refs" "index (steps0 ! p) = index (steps0 ! q)"
      by (rule imageE)
    have "q < length steps0" using sub q(1) by blast
    from index_inj[OF dist p this q(2)] q(1) show "p \<in> set refs" by simp
  qed
  from sub sup have "set refs = {..<length steps0}" by (rule subset_antisym)
  then have "set refs = set [0..<length steps0]" by (simp add: atLeast0LessThan)
  then show ?thesis
    using set_eq_iff_mset_eq_distinct[OF d distinct_upt, of 0 "length steps0"] by blast
qed

text \<open>
  C2. For a plan with unique step indices whose dependencies all name steps of the plan
  and whose dependsOn graph is acyclic, \<open>topologicalSort\<close> returns every step of the plan
  exactly once, and every dependency of a step stands at an earlier position than the
  step.
\<close>

theorem topologicalSort_order:
  assumes "distinct (map index steps0)"
    and "\<forall>s \<in> set steps0. set (dependsOn s) \<subseteq> index ` set steps0"
    and "acyclic (dep_rel steps0)"
  shows "mset (topologicalSort steps0) = mset steps0 \<and>
         (\<forall>i < length (topologicalSort steps0).
            \<forall>d \<in> set (dependsOn (topologicalSort steps0 ! i)).
              \<exists>j < i. index (topologicalSort steps0 ! j) = d)"
proof -
  let ?refs = "topologicalSortRefs steps0"
  note spec = topologicalSortRefs_spec[OF assms(1)]
  have "mset (map (\<lambda>p. steps0 ! p) ?refs) = mset (map (\<lambda>p. steps0 ! p) [0..<length steps0])"
    using refs_permutation[OF assms(1) spec assms(2,3)] by (metis mset_map)
  then have 1: "mset (topologicalSort steps0) = mset steps0"
    by (simp add: topologicalSort_def map_nth)
  have 2: "\<forall>i < length (topologicalSort steps0).
            \<forall>d \<in> set (dependsOn (topologicalSort steps0 ! i)).
              \<exists>j < i. index (topologicalSort steps0 ! j) = d"
  proof (intro allI impI ballI)
    fix i d assume i: "i < length (topologicalSort steps0)"
      and d: "d \<in> set (dependsOn (topologicalSort steps0 ! i))"
    have il: "i < length ?refs" using i by (simp add: topologicalSort_def)
    have "d \<in> set (take i (processed steps0 ?refs))"
      using spec il d by (auto simp: sorted_spec_def topologicalSort_def)
    then obtain j where "j < length (take i (processed steps0 ?refs))"
      "take i (processed steps0 ?refs) ! j = d"
      by (auto simp: in_set_conv_nth)
    then have "j < i" "index (topologicalSort steps0 ! j) = d"
      using il by (simp_all add: processed_def topologicalSort_def)
    then show "\<exists>j < i. index (topologicalSort steps0 ! j) = d" by blast
  qed
  from 1 2 show ?thesis by simp
qed

theorem topologicalSort_order_witness:
  "distinct (map index diamond) \<and> acyclic (dep_rel diamond) \<and>
   mset (topologicalSort diamond) = mset diamond \<and>
   map index (topologicalSort diamond) = [0, 1, 2, 3]"
proof -
  have h1: "distinct (map index diamond)" by (simp add: diamond_def mk_step_def)
  have h2: "\<forall>s \<in> set diamond. set (dependsOn s) \<subseteq> index ` set diamond"
    by (simp add: diamond_def mk_step_def)
  have h3: "acyclic (dep_rel diamond)" by code_simp
  have e: "map index (topologicalSort diamond) = [0, 1, 2, 3]" by code_simp
  from topologicalSort_order[OF h1 h2 h3] h1 h3 e show ?thesis by simp
qed

theorem cycle_steps_excluded_witness:
  "(1, 1) \<in> (dep_rel cyclic_plan)\<^sup>+ \<and> (1, 3) \<in> (dep_rel cyclic_plan)\<^sup>* \<and>
   mk_step 3 ''D'' [2] \<notin> set (topologicalSort cyclic_plan) \<and>
   map index (topologicalSort cyclic_plan) = [0, 4]"
proof -
  have h1: "distinct (map index cyclic_plan)" by (simp add: cyclic_plan_def mk_step_def)
  have e12: "(1, 2) \<in> dep_rel cyclic_plan" and e21: "(2, 1) \<in> dep_rel cyclic_plan"
    and e23: "(2, 3) \<in> dep_rel cyclic_plan"
    by (simp_all add: dep_rel_def cyclic_plan_def mk_step_def)
  have h2: "(1, 1) \<in> (dep_rel cyclic_plan)\<^sup>+" using e12 e21 by (rule trancl_into_trancl[OF r_into_trancl])
  have h3: "(1, 3) \<in> (dep_rel cyclic_plan)\<^sup>*" using e12 e23 by (meson rtrancl.simps)
  have i: "index (mk_step 3 ''D'' [2]) = 3" by (simp add: mk_step_def)
  have e: "map index (topologicalSort cyclic_plan) = [0, 4]" by code_simp
  from cycle_steps_excluded[OF h1 h2, of "mk_step 3 ''D'' [2]"] h2 h3 i e show ?thesis by simp
qed

definition only_skips :: "ExecState \<Rightarrow> ExecState \<Rightarrow> bool" where
  "only_skips st st' =
     (map index (planSteps st') = map index (planSteps st) \<and>
      map dependsOn (planSteps st') = map dependsOn (planSteps st) \<and>
      results st' = results st \<and>
      (\<forall>q < length (planSteps st).
         status (planSteps st' ! q) = status (planSteps st ! q) \<or>
         (status (planSteps st ! q) = Pending \<and> status (planSteps st' ! q) = Skipped)) \<and>
      (\<exists>ws. statusWrites st' = statusWrites st @ ws \<and> (\<forall>w \<in> set ws. snd w = Skipped)))"

definition skip_closed :: "int \<Rightarrow> nat \<Rightarrow> ExecState \<Rightarrow> ExecState \<Rightarrow> bool" where
  "skip_closed failedIndex i st st' =
     ((\<forall>q < length (planSteps st). i \<le> q \<and> failedIndex \<in> set (dependsOn (planSteps st ! q)) \<longrightarrow>
          status (planSteps st' ! q) \<noteq> Pending) \<and>
      (\<forall>q < length (planSteps st).
          status (planSteps st ! q) = Pending \<and> status (planSteps st' ! q) = Skipped \<longrightarrow>
          (\<forall>u < length (planSteps st). index (planSteps st ! q) \<in> set (dependsOn (planSteps st ! u)) \<longrightarrow>
              status (planSteps st' ! u) \<noteq> Pending)))"

lemma map_update_same:
  "f y = f (xs ! i) \<Longrightarrow> map f (xs[i := y]) = map f xs"
proof (induction xs arbitrary: i)
  case Nil
  then show ?case by simp
next
  case (Cons x xs)
  then show ?case by (cases i) auto
qed

lemma setStatus_simps [simp]:
  "map index (planSteps (setStatus p v st)) = map index (planSteps st)"
  "map dependsOn (planSteps (setStatus p v st)) = map dependsOn (planSteps st)"
  "results (setStatus p v st) = results st"
  "statusWrites (setStatus p v st) = statusWrites st @ [(p, v)]"
  by (simp_all add: setStatus_def map_update_same)

lemma setStatus_status:
  "q < length (planSteps st) \<Longrightarrow>
   status (planSteps (setStatus p v st) ! q) = (if q = p then v else status (planSteps st ! q))"
  by (simp add: setStatus_def nth_list_update)

lemma only_skips_refl: "only_skips st st"
  by (simp add: only_skips_def)

lemma only_skips_length: "only_skips st st' \<Longrightarrow> length (planSteps st') = length (planSteps st)"
  by (metis length_map only_skips_def)

lemma only_skips_trans:
  assumes "only_skips st st1" and "only_skips st1 st2"
  shows "only_skips st st2"
proof -
  note l = only_skips_length[OF assms(1)]
  from assms obtain ws1 ws2 where
    w: "statusWrites st1 = statusWrites st @ ws1" "\<forall>w \<in> set ws1. snd w = Skipped"
       "statusWrites st2 = statusWrites st1 @ ws2" "\<forall>w \<in> set ws2. snd w = Skipped"
    unfolding only_skips_def by blast
  have "statusWrites st2 = statusWrites st @ (ws1 @ ws2) \<and> (\<forall>w \<in> set (ws1 @ ws2). snd w = Skipped)"
    using w by auto
  then have "\<exists>ws. statusWrites st2 = statusWrites st @ ws \<and> (\<forall>w \<in> set ws. snd w = Skipped)"
    by blast
  moreover have "\<forall>q < length (planSteps st).
         status (planSteps st2 ! q) = status (planSteps st ! q) \<or>
         (status (planSteps st ! q) = Pending \<and> status (planSteps st2 ! q) = Skipped)"
  proof (intro allI impI)
    fix q assume q: "q < length (planSteps st)"
    then have q1: "q < length (planSteps st1)" using l by simp
    from assms(1) q have "status (planSteps st1 ! q) = status (planSteps st ! q) \<or>
         (status (planSteps st ! q) = Pending \<and> status (planSteps st1 ! q) = Skipped)"
      unfolding only_skips_def by blast
    moreover from assms(2) q1 have "status (planSteps st2 ! q) = status (planSteps st1 ! q) \<or>
         (status (planSteps st1 ! q) = Pending \<and> status (planSteps st2 ! q) = Skipped)"
      unfolding only_skips_def by blast
    ultimately show "status (planSteps st2 ! q) = status (planSteps st ! q) \<or>
         (status (planSteps st ! q) = Pending \<and> status (planSteps st2 ! q) = Skipped)"
      by auto
  qed
  ultimately show ?thesis using assms unfolding only_skips_def by simp
qed

lemma only_skips_setStatus:
  "i < length (planSteps st) \<Longrightarrow> status (planSteps st ! i) = Pending \<Longrightarrow>
   only_skips st (setStatus i Skipped st)"
  by (auto simp: only_skips_def setStatus_status)

lemma only_skips_nth:
  "only_skips st st' \<Longrightarrow> q < length (planSteps st) \<Longrightarrow>
   index (planSteps st' ! q) = index (planSteps st ! q) \<and>
   dependsOn (planSteps st' ! q) = dependsOn (planSteps st ! q)"
proof -
  assume a: "only_skips st st'" and q: "q < length (planSteps st)"
  then have q': "q < length (planSteps st')" using only_skips_length by simp
  have "map index (planSteps st') ! q = map index (planSteps st) ! q"
    "map dependsOn (planSteps st') ! q = map dependsOn (planSteps st) ! q"
    using a by (simp_all add: only_skips_def)
  then show ?thesis using q q' by simp
qed

lemma only_skips_not_pending:
  "only_skips st st' \<Longrightarrow> q < length (planSteps st) \<Longrightarrow>
   status (planSteps st ! q) \<noteq> Pending \<Longrightarrow> status (planSteps st' ! q) = status (planSteps st ! q)"
  unfolding only_skips_def by blast

lemma skip_closed_same:
  "length (planSteps st) \<le> i \<Longrightarrow> skip_closed failedIndex i st st"
  by (auto simp: skip_closed_def)

lemma skipFrom_no_match:
  "i < length (planSteps st) \<Longrightarrow>
   \<not> (failedIndex \<in> set (dependsOn (planSteps st ! i)) \<and> status (planSteps st ! i) = Pending) \<Longrightarrow>
   skipFrom failedIndex i st = skipFrom failedIndex (Suc i) st"
  by (subst skipFrom.simps) (auto simp: Let_def)

lemma skipFrom_match:
  "i < length (planSteps st) \<Longrightarrow>
   failedIndex \<in> set (dependsOn (planSteps st ! i)) \<and> status (planSteps st ! i) = Pending \<Longrightarrow>
   skipFrom failedIndex i st =
     skipFrom failedIndex (Suc i) (skipFrom (index (planSteps st ! i)) 0 (setStatus i Skipped st))"
  by (subst skipFrom.simps) (simp add: Let_def)

lemma skipFrom_end:
  "\<not> i < length (planSteps st) \<Longrightarrow> skipFrom failedIndex i st = st"
  by (subst skipFrom.simps) simp

lemma skipFrom_post:
  "only_skips st (skipFrom failedIndex i st) \<and> skip_closed failedIndex i st (skipFrom failedIndex i st)"
proof (induction failedIndex i st rule: skipFrom.induct)
  case (1 f i st)
  let ?n = "length (planSteps st)"
  show ?case
  proof (cases "i < ?n")
    case False
    then show ?thesis
      by (simp add: skipFrom_end only_skips_refl skip_closed_same)
  next
    case i: True
    let ?step = "planSteps st ! i"
    show ?thesis
    proof (cases "f \<in> set (dependsOn ?step) \<and> status ?step = Pending")
      case False
      let ?R = "skipFrom f (Suc i) st"
      from "1.IH"(3)[OF i refl False]
      have os: "only_skips st ?R" and sc: "skip_closed f (Suc i) st ?R" by simp_all
      have "skip_closed f i st ?R"
        unfolding skip_closed_def
      proof (intro conjI allI impI)
        fix q assume q: "q < ?n" and h: "i \<le> q \<and> f \<in> set (dependsOn (planSteps st ! q))"
        show "status (planSteps ?R ! q) \<noteq> Pending"
        proof (cases "q = i")
          case True
          then have "status (planSteps st ! q) \<noteq> Pending" using False h by auto
          then show ?thesis using only_skips_not_pending[OF os q] by simp
        next
          case False
          then have "Suc i \<le> q" using h by simp
          then show ?thesis using sc q h unfolding skip_closed_def by blast
        qed
      next
        fix q u assume "q < ?n"
          "status (planSteps st ! q) = Pending \<and> status (planSteps ?R ! q) = Skipped"
          "u < ?n" "index (planSteps st ! q) \<in> set (dependsOn (planSteps st ! u))"
        then show "status (planSteps ?R ! u) \<noteq> Pending"
          using sc unfolding skip_closed_def by blast
      qed
      then show ?thesis using os by (simp add: skipFrom_no_match[OF i False])
    next
      case m: True
      let ?st1 = "setStatus i Skipped st"
      let ?st2 = "skipFrom (index ?step) 0 ?st1"
      let ?R = "skipFrom f (Suc i) ?st2"
      from "1.IH"(1)[OF i refl m]
      have os12: "only_skips ?st1 ?st2" and sc12: "skip_closed (index ?step) 0 ?st1 ?st2" by simp_all
      from "1.IH"(2)[OF i refl m]
      have os2R: "only_skips ?st2 ?R" and sc2R: "skip_closed f (Suc i) ?st2 ?R" by simp_all
      have os01: "only_skips st ?st1" using only_skips_setStatus[OF i] m by simp
      have os02: "only_skips st ?st2" using only_skips_trans[OF os01 os12] .
      have os0R: "only_skips st ?R" using only_skips_trans[OF os02 os2R] .
      have os1R: "only_skips ?st1 ?R" using only_skips_trans[OF os12 os2R] .
      have n1: "length (planSteps ?st1) = ?n" by simp
      have n2: "length (planSteps ?st2) = ?n" using only_skips_length[OF os02] .
      have i1: "status (planSteps ?st1 ! i) = Skipped" using i by (simp add: setStatus_status)
      have "skip_closed f i st ?R"
        unfolding skip_closed_def
      proof (intro conjI allI impI)
        fix q assume q: "q < ?n" and h: "i \<le> q \<and> f \<in> set (dependsOn (planSteps st ! q))"
        show "status (planSteps ?R ! q) \<noteq> Pending"
        proof (cases "q = i")
          case True
          have "status (planSteps ?R ! i) = status (planSteps ?st1 ! i)"
            using only_skips_not_pending[OF os1R, of i] i i1 n1 by simp
          then show ?thesis using True i1 by simp
        next
          case False
          then have "Suc i \<le> q" using h by simp
          moreover have "dependsOn (planSteps ?st2 ! q) = dependsOn (planSteps st ! q)"
            using only_skips_nth[OF os02 q] by simp
          ultimately show ?thesis using sc2R q h n2 unfolding skip_closed_def by auto
        qed
      next
        fix q u assume q: "q < ?n"
          and c: "status (planSteps st ! q) = Pending \<and> status (planSteps ?R ! q) = Skipped"
          and u: "u < ?n"
          and e: "index (planSteps st ! q) \<in> set (dependsOn (planSteps st ! u))"
        have d1: "dependsOn (planSteps ?st1 ! u) = dependsOn (planSteps st ! u)"
          using only_skips_nth[OF os01 u] by simp
        have d2: "dependsOn (planSteps ?st2 ! u) = dependsOn (planSteps st ! u)"
          using only_skips_nth[OF os02 u] by simp
        have x1: "index (planSteps ?st1 ! q) = index (planSteps st ! q)"
          using only_skips_nth[OF os01 q] by simp
        have x2: "index (planSteps ?st2 ! q) = index (planSteps st ! q)"
          using only_skips_nth[OF os02 q] by simp
        have keep: "status (planSteps ?st2 ! u) \<noteq> Pending \<Longrightarrow> status (planSteps ?R ! u) \<noteq> Pending"
          using only_skips_not_pending[OF os2R, of u] u n2 by simp
        show "status (planSteps ?R ! u) \<noteq> Pending"
        proof (cases "q = i")
          case True
          have "status (planSteps ?st2 ! u) \<noteq> Pending"
            using sc12 u n1 e d1 True unfolding skip_closed_def by auto
          then show ?thesis by (rule keep)
        next
          case False
          then have p1: "status (planSteps ?st1 ! q) = Pending"
            using c q by (simp add: setStatus_status)
          show ?thesis
          proof (cases "status (planSteps ?st2 ! q) = Skipped")
            case True
            have "status (planSteps ?st2 ! u) \<noteq> Pending"
              using sc12 q u n1 p1 True e d1 x1 unfolding skip_closed_def by auto
            then show ?thesis by (rule keep)
          next
            case False
            have "status (planSteps ?st2 ! q) = status (planSteps ?st1 ! q) \<or>
                  (status (planSteps ?st1 ! q) = Pending \<and> status (planSteps ?st2 ! q) = Skipped)"
              using os12 q n1 unfolding only_skips_def by auto
            then have "status (planSteps ?st2 ! q) = Pending" using False p1 by auto
            then show ?thesis
              using sc2R q u n2 c e d2 x2 unfolding skip_closed_def by auto
          qed
        qed
      qed
      then show ?thesis using os0R by (simp add: skipFrom_match[OF i m])
    qed
  qed
qed

definition step_failed :: "nat \<Rightarrow> ExecState \<Rightarrow> ExecState \<Rightarrow> bool" where
  "step_failed p st st3 =
     (planSteps st3 = (planSteps st)[p := (planSteps st ! p)\<lparr>status := Failed\<rparr>] \<and>
      (\<exists>r. results st3 = results st @ [r] \<and> stepIndex r = index (planSteps st ! p) \<and>
           result_status r = Failure) \<and>
      statusWrites st3 = statusWrites st @ [(p, Active), (p, Failed)])"

definition step_done :: "nat \<Rightarrow> ExecState \<Rightarrow> ExecState \<Rightarrow> bool" where
  "step_done p st st4 =
     (planSteps st4 = (planSteps st)[p := (planSteps st ! p)\<lparr>status := Done\<rparr>] \<and>
      length (results st4) = Suc (length (results st)) \<and>
      (\<exists>ws. statusWrites st4 = statusWrites st @ ws \<and>
            set ws \<subseteq> {(p, Active), (p, Failed), (p, Done)}))"

definition run_inv :: "PlanStep list \<Rightarrow> nat list \<Rightarrow> ExecState \<Rightarrow> bool" where
  "run_inv steps0 pre st =
     (map index (planSteps st) = map index steps0 \<and>
      map dependsOn (planSteps st) = map dependsOn steps0 \<and>
      (\<forall>q < length steps0.
         status (planSteps st ! q) = (if q \<in> set pre then Done else status (steps0 ! q))) \<and>
      (\<forall>w \<in> set (statusWrites st). fst w \<in> set pre \<and> snd w \<noteq> Skipped) \<and>
      length (results st) = length pre)"

lemma executeStep_fields:
  "stepIndex (executeStep chat k step rs) = index step"
  "stepIndex (retryStep rechat k step e) = index step"
  by (simp_all add: executeStep_def retryStep_def split: Attempt.splits)

lemma executeLoop_Cons_cases:
  assumes p: "p < length (planSteps st)"
  shows "(aborted k \<and> executeLoop aborted chat rechat (p # rest) k st = (Aborted, st)) \<or>
         (\<exists>st3. executeLoop aborted chat rechat (p # rest) k st =
                   (FailedAt p, skipDependents (index (planSteps st ! p)) st3) \<and>
                 step_failed p st st3) \<or>
         (\<exists>st4. executeLoop aborted chat rechat (p # rest) k st =
                   executeLoop aborted chat rechat rest (Suc k) st4 \<and>
                 step_done p st st4)"
proof (cases "aborted k")
  case True
  then show ?thesis by simp
next
  case na: False
  define st1 where "st1 = setStatus p Active st"
  define result where "result = executeStep chat k (planSteps st1 ! p) (results st1)"
  define st2 where "st2 = st1\<lparr>results := results st1 @ [result]\<rparr>"
  define st3 where "st3 = setStatus p (if result_status result = Success then Done else Failed) st2"
  define retryResult where "retryResult = retryStep rechat k (planSteps st3 ! p)
      (case result_error result of None \<Rightarrow> ''Unknown error'' | Some e \<Rightarrow> e)"
  define st4 where "st4 = setStatus p Done
      (st3\<lparr>results := (results st3)[length (results st3) - 1 := retryResult]\<rparr>)"
  have unfold: "executeLoop aborted chat rechat (p # rest) k st =
      (if result_status result = Failure then
         (if result_status retryResult = Failure
          then (FailedAt p, skipDependents (index (planSteps st3 ! p)) st3)
          else executeLoop aborted chat rechat rest (Suc k) st4)
       else executeLoop aborted chat rechat rest (Suc k) st3)"
    using na by (simp add: Let_def st1_def result_def st2_def st3_def retryResult_def st4_def)
  have idx1: "index (planSteps st1 ! p) = index (planSteps st ! p)"
    using p by (simp add: st1_def setStatus_def)
  have ri: "stepIndex result = index (planSteps st ! p)"
    by (simp add: result_def executeStep_fields idx1)
  show ?thesis
  proof (cases "result_status result = Failure")
    case False
    then have s: "result_status result = Success" by (cases "result_status result") auto
    have "step_done p st st3"
      using p s by (auto simp: step_done_def st3_def st2_def st1_def setStatus_def)
    then show ?thesis using unfold False by auto
  next
    case f: True
    have ps3: "planSteps st3 = (planSteps st)[p := (planSteps st ! p)\<lparr>status := Failed\<rparr>]"
      using p f by (simp add: st3_def st2_def st1_def setStatus_def)
    show ?thesis
    proof (cases "result_status retryResult = Failure")
      case True
      have "step_failed p st st3"
        using p f ri ps3 by (simp add: step_failed_def st3_def st2_def st1_def setStatus_def)
      moreover have "index (planSteps st3 ! p) = index (planSteps st ! p)"
        using p by (simp add: ps3)
      ultimately show ?thesis using unfold f True by auto
    next
      case False
      have "step_done p st st4"
        using p f ps3
        by (auto simp: step_done_def st4_def st3_def st2_def st1_def setStatus_def)
      then show ?thesis using unfold f False by auto
    qed
  qed
qed

lemma run_inv_length: "run_inv steps0 pre st \<Longrightarrow> length (planSteps st) = length steps0"
  by (metis length_map run_inv_def)

lemma run_inv_step_done:
  assumes inv: "run_inv steps0 pre st" and a: "a < length steps0" and d: "step_done a st st4"
  shows "run_inv steps0 (pre @ [a]) st4"
proof -
  note n = run_inv_length[OF inv]
  from d have ps: "planSteps st4 = (planSteps st)[a := (planSteps st ! a)\<lparr>status := Done\<rparr>]"
    and rl: "length (results st4) = Suc (length (results st))"
    by (simp_all add: step_done_def)
  from d obtain ws where ws: "statusWrites st4 = statusWrites st @ ws"
    "set ws \<subseteq> {(a, Active), (a, Failed), (a, Done)}"
    unfolding step_done_def by blast
  have 1: "map index (planSteps st4) = map index steps0"
    "map dependsOn (planSteps st4) = map dependsOn steps0"
    using inv by (simp_all add: ps map_update_same run_inv_def)
  have 2: "\<forall>q < length steps0.
         status (planSteps st4 ! q) = (if q \<in> set (pre @ [a]) then Done else status (steps0 ! q))"
  proof (intro allI impI)
    fix q assume q: "q < length steps0"
    from inv q have o: "status (planSteps st ! q) = (if q \<in> set pre then Done else status (steps0 ! q))"
      unfolding run_inv_def by blast
    show "status (planSteps st4 ! q) = (if q \<in> set (pre @ [a]) then Done else status (steps0 ! q))"
    proof (cases "q = a")
      case True
      then show ?thesis using q n by (simp add: ps)
    next
      case False
      then show ?thesis using q n o by (simp add: ps)
    qed
  qed
  have 3: "\<forall>w \<in> set (statusWrites st4). fst w \<in> set (pre @ [a]) \<and> snd w \<noteq> Skipped"
  proof
    fix w assume "w \<in> set (statusWrites st4)"
    then have "w \<in> set (statusWrites st) \<or> w \<in> set ws" using ws(1) by auto
    then show "fst w \<in> set (pre @ [a]) \<and> snd w \<noteq> Skipped"
    proof
      assume "w \<in> set (statusWrites st)"
      then show ?thesis using inv by (auto simp: run_inv_def)
    next
      assume "w \<in> set ws"
      then have "w \<in> {(a, Active), (a, Failed), (a, Done)}" using ws(2) by blast
      then show ?thesis by auto
    qed
  qed
  have 4: "length (results st4) = length (pre @ [a])"
    using inv rl by (simp add: run_inv_def)
  from 1 2 3 4 show ?thesis unfolding run_inv_def by blast
qed

lemma executeLoop_failed:
  "run_inv steps0 pre st \<Longrightarrow> set rest \<subseteq> {..<length steps0} \<Longrightarrow>
   executeLoop aborted chat rechat rest k st = (FailedAt p, st') \<Longrightarrow>
   \<exists>pre' rest' stB st3. rest = pre' @ p # rest' \<and> run_inv steps0 (pre @ pre') stB \<and>
      step_failed p stB st3 \<and> st' = skipDependents (index (steps0 ! p)) st3"
proof (induction rest arbitrary: pre k st)
  case Nil
  then show ?case by simp
next
  case (Cons a rest)
  have a: "a < length steps0" using Cons.prems(2) by simp
  then have al: "a < length (planSteps st)" using run_inv_length[OF Cons.prems(1)] by simp
  have ia: "index (planSteps st ! a) = index (steps0 ! a)"
  proof -
    have "map index (planSteps st) ! a = map index steps0 ! a"
      using Cons.prems(1) by (simp add: run_inv_def)
    then show ?thesis using a al by simp
  qed
  from executeLoop_Cons_cases[OF al, of aborted k chat rechat rest]
  consider
    (ab) "executeLoop aborted chat rechat (a # rest) k st = (Aborted, st)"
  | (fail) st3 where "executeLoop aborted chat rechat (a # rest) k st =
        (FailedAt a, skipDependents (index (planSteps st ! a)) st3)" "step_failed a st st3"
  | (ok) st4 where "executeLoop aborted chat rechat (a # rest) k st =
        executeLoop aborted chat rechat rest (Suc k) st4" "step_done a st st4"
    by blast
  then show ?case
  proof cases
    case ab
    then show ?thesis using Cons.prems(3) by simp
  next
    case fail
    then have "a = p" "st' = skipDependents (index (steps0 ! p)) st3"
      using Cons.prems(3) ia by auto
    then show ?thesis
      using fail(2) Cons.prems(1)
      by (intro exI[of _ "[]"] exI[of _ rest] exI[of _ st] exI[of _ st3]) simp
  next
    case ok
    have inv': "run_inv steps0 (pre @ [a]) st4"
      using run_inv_step_done[OF Cons.prems(1) a ok(2)] .
    have "executeLoop aborted chat rechat rest (Suc k) st4 = (FailedAt p, st')"
      using ok(1) Cons.prems(3) by simp
    from Cons.IH[OF inv' _ this] Cons.prems(2)
    obtain pre' rest' stB st3 where r: "rest = pre' @ p # rest'"
      "run_inv steps0 ((pre @ [a]) @ pre') stB" "step_failed p stB st3"
      "st' = skipDependents (index (steps0 ! p)) st3"
      by auto
    then show ?thesis
      by (intro exI[of _ "a # pre'"] exI[of _ rest'] exI[of _ stB] exI[of _ st3]) simp
  qed
qed

lemma skipped_closure:
  assumes dist: "distinct (map index steps0)"
    and ix: "map index (planSteps st3) = map index steps0"
    and dp: "map dependsOn (planSteps st3) = map dependsOn steps0"
    and os: "only_skips st3 R" and sc: "skip_closed f 0 st3 R"
    and pend: "\<forall>q < length steps0. (f, index (steps0 ! q)) \<in> (dep_rel steps0)\<^sup>+ \<longrightarrow>
                 status (planSteps st3 ! q) = Pending"
  shows "(f, t) \<in> (dep_rel steps0)\<^sup>+ \<Longrightarrow>
         \<forall>q < length steps0. index (steps0 ! q) = t \<longrightarrow> status (planSteps R ! q) = Skipped"
proof -
  have n3: "length (planSteps st3) = length steps0" using ix by (metis length_map)
  have idx3: "\<And>q. q < length steps0 \<Longrightarrow> index (planSteps st3 ! q) = index (steps0 ! q)"
  proof -
    fix q assume q: "q < length steps0"
    have "map index (planSteps st3) ! q = map index steps0 ! q" using ix by simp
    then show "index (planSteps st3 ! q) = index (steps0 ! q)" using q n3 by simp
  qed
  have dep3: "\<And>q. q < length steps0 \<Longrightarrow> dependsOn (planSteps st3 ! q) = dependsOn (steps0 ! q)"
  proof -
    fix q assume q: "q < length steps0"
    have "map dependsOn (planSteps st3) ! q = map dependsOn steps0 ! q" using dp by simp
    then show "dependsOn (planSteps st3 ! q) = dependsOn (steps0 ! q)" using q n3 by simp
  qed
  have edge_deps: "\<And>q d. q < length steps0 \<Longrightarrow> (d, index (steps0 ! q)) \<in> dep_rel steps0 \<Longrightarrow>
      d \<in> set (dependsOn (planSteps st3 ! q))"
  proof -
    fix q d assume q: "q < length steps0" and e: "(d, index (steps0 ! q)) \<in> dep_rel steps0"
    then obtain s where s: "s \<in> set steps0" "index s = index (steps0 ! q)" "d \<in> set (dependsOn s)"
      unfolding dep_rel_iff by blast
    have "steps0 ! q \<in> set steps0" using q by simp
    from index_unique[OF dist s(1) this s(2)] s(3) show "d \<in> set (dependsOn (planSteps st3 ! q))"
      using dep3[OF q] by simp
  qed
  have change: "\<And>q. q < length steps0 \<Longrightarrow>
      status (planSteps R ! q) = status (planSteps st3 ! q) \<or>
      (status (planSteps st3 ! q) = Pending \<and> status (planSteps R ! q) = Skipped)"
    using os n3 unfolding only_skips_def by auto
  show "(f, t) \<in> (dep_rel steps0)\<^sup>+ \<Longrightarrow>
         \<forall>q < length steps0. index (steps0 ! q) = t \<longrightarrow> status (planSteps R ! q) = Skipped"
proof (induction rule: trancl_induct)
  case (base y)
  show ?case
  proof (intro allI impI)
    fix q assume q: "q < length steps0" and iq: "index (steps0 ! q) = y"
    have p0: "status (planSteps st3 ! q) = Pending"
      using pend q iq base by (simp add: r_into_trancl)
    have "f \<in> set (dependsOn (planSteps st3 ! q))"
      using edge_deps[OF q] base iq by simp
    then have "status (planSteps R ! q) \<noteq> Pending"
      using sc q n3 unfolding skip_closed_def by auto
    then show "status (planSteps R ! q) = Skipped" using change[OF q] p0 by auto
  qed
next
  case (step y z)
  show ?case
  proof (intro allI impI)
    fix q assume q: "q < length steps0" and iq: "index (steps0 ! q) = z"
    have "(f, z) \<in> (dep_rel steps0)\<^sup>+" using step.hyps by (rule trancl_into_trancl)
    then have p0: "status (planSteps st3 ! q) = Pending" using pend q iq by simp
    have yq: "y \<in> set (dependsOn (planSteps st3 ! q))"
      using edge_deps[OF q] step.hyps(2) iq by simp
    from step.hyps(1) obtain x where "(x, y) \<in> dep_rel steps0" by (meson tranclE)
    then obtain s where s: "s \<in> set steps0" "index s = y" unfolding dep_rel_iff by blast
    then obtain u where u: "u < length steps0" "steps0 ! u = s" by (auto simp: in_set_conv_nth)
    then have iu: "index (steps0 ! u) = y" using s(2) by simp
    have "status (planSteps R ! u) = Skipped" using step.IH u(1) iu by blast
    moreover have "status (planSteps st3 ! u) = Pending"
      using pend u(1) iu step.hyps(1) by simp
    moreover have "index (planSteps st3 ! u) = y" using idx3[OF u(1)] iu by simp
    ultimately have "status (planSteps R ! q) \<noteq> Pending"
      using sc q u(1) n3 yq unfolding skip_closed_def by auto
    then show "status (planSteps R ! q) = Skipped" using change[OF q] p0 by auto
  qed
qed
qed

text \<open>An execution of the diamond plan in which step B fails and its retry fails too.\<close>

definition failing_chat :: "nat \<Rightarrow> PlanStep \<Rightarrow> StepResult list \<Rightarrow> Attempt" where
  "failing_chat k step previousResults =
     (if index step = 1 then FailedWith (Some ''Unknown tool: extrude'') else Succeeded [])"

definition failing_rechat :: "nat \<Rightarrow> PlanStep \<Rightarrow> string \<Rightarrow> Attempt" where
  "failing_rechat k step errorMessage = FailedWith (Some ''Unknown tool: extrude'')"

definition never_aborted :: "nat \<Rightarrow> bool" where
  "never_aborted k = False"

lemma dependent_not_before:
  assumes dist: "distinct (map index steps0)" and spec: "sorted_spec steps0 refs"
    and refs: "refs = pre' @ p # rest'"
    and q: "q \<in> set (pre' @ [p])"
  shows "(index (steps0 ! p), index (steps0 ! q)) \<notin> (dep_rel steps0)\<^sup>+"
proof
  assume t: "(index (steps0 ! p), index (steps0 ! q)) \<in> (dep_rel steps0)\<^sup>+"
  let ?j = "length pre'"
  have j: "?j < length refs" "refs ! ?j = p" using refs by simp_all
  have dr: "distinct refs"
  proof -
    have "distinct (map (\<lambda>p. index (steps0 ! p)) refs)"
      using spec by (simp add: sorted_spec_def processed_def)
    then show ?thesis by (simp add: distinct_map)
  qed
  have sub: "set refs \<subseteq> {..<length steps0}" using spec by (simp add: sorted_spec_def)
  from q obtain i where i: "i \<le> ?j" "refs ! i = q"
  proof (cases "q = p")
    case True
    then show ?thesis using that[of ?j] j by simp
  next
    case False
    then have "q \<in> set pre'" using q by simp
    then obtain i where "i < length pre'" "pre' ! i = q" by (auto simp: in_set_conv_nth)
    then show ?thesis using that[of i] refs by (simp add: nth_append)
  qed
  have il: "i < length refs" using i(1) j(1) by simp
  have "processed steps0 refs ! i = index (steps0 ! q)" using il i(2) by (simp add: processed_nth)
  from trans_dep_before[OF dist spec t il this]
  obtain j' where j': "j' < i" "processed steps0 refs ! j' = index (steps0 ! p)" by blast
  then have j'l: "j' < length refs" using il by simp
  have e: "index (steps0 ! (refs ! j')) = index (steps0 ! p)"
    using j'(2) j'l by (simp add: processed_nth)
  have "refs ! j' \<in> set refs" "refs ! ?j \<in> set refs" using j'l j(1) by simp_all
  then have "refs ! j' < length steps0" "p < length steps0"
    using sub j(2) by blast+
  from index_inj[OF dist this e] have "refs ! j' = refs ! ?j" using j(2) by simp
  then have "j' = ?j" using dr j'l j(1) by (simp add: nth_eq_iff_index_eq)
  then show False using j'(1) i(1) by simp
qed

text \<open>
  C3. In a plan with unique step indices whose steps are all pending, when the loop of
  \<open>executePlan\<close> ends because the step at position \<open>p\<close> failed and its retry failed: the
  step's status is failed; every step that depends on it through one or more dependsOn
  edges has status skipped; no write of the status done was ever made to such a step;
  and every status write other than a skip is to a step up to and including the failed
  one in the sorted order, the results end with the failure of that step, so no later
  step was started.
\<close>

theorem failed_step_skips_dependents:
  assumes dist: "distinct (map index steps0)"
    and pend: "\<forall>s \<in> set steps0. status s = Pending"
    and run: "runPlan aborted chat rechat steps0 = (FailedAt p, st')"
  shows "p < length steps0 \<and>
         map index (planSteps st') = map index steps0 \<and>
         status (planSteps st' ! p) = Failed \<and>
         (\<forall>q < length steps0.
            (index (steps0 ! p), index (steps0 ! q)) \<in> (dep_rel steps0)\<^sup>+ \<longrightarrow>
            status (planSteps st' ! q) = Skipped) \<and>
         (\<forall>w \<in> set (statusWrites st').
            snd w = Done \<longrightarrow>
            (index (steps0 ! p), index (steps0 ! fst w)) \<notin> (dep_rel steps0)\<^sup>+) \<and>
         (\<exists>j < length (topologicalSortRefs steps0).
            topologicalSortRefs steps0 ! j = p \<and>
            (\<forall>w \<in> set (statusWrites st').
               snd w \<noteq> Skipped \<longrightarrow> fst w \<in> set (take (Suc j) (topologicalSortRefs steps0))) \<and>
            length (results st') = Suc j \<and>
            stepIndex (last (results st')) = index (steps0 ! p) \<and>
            result_status (last (results st')) = Failure)"
proof -
  let ?refs = "topologicalSortRefs steps0"
  let ?n = "length steps0"
  let ?f = "index (steps0 ! p)"
  note spec = topologicalSortRefs_spec[OF dist]
  have sub: "set ?refs \<subseteq> {..<?n}" using spec by (simp add: sorted_spec_def)
  have inv0: "run_inv steps0 [] \<lparr>planSteps = steps0, results = [], statusWrites = []\<rparr>"
    by (simp add: run_inv_def)
  from executeLoop_failed[OF inv0 sub run[unfolded runPlan_def]]
  obtain pre' rest' stB st3 where refs: "?refs = pre' @ p # rest'"
    and invB: "run_inv steps0 pre' stB" and sf: "step_failed p stB st3"
    and st': "st' = skipDependents ?f st3"
    by auto
  let ?j = "length pre'"
  have p: "p < ?n" using sub refs by auto
  note nB = run_inv_length[OF invB]
  from sf have ps3: "planSteps st3 = (planSteps stB)[p := (planSteps stB ! p)\<lparr>status := Failed\<rparr>]"
    and w3: "statusWrites st3 = statusWrites stB @ [(p, Active), (p, Failed)]"
    by (simp_all add: step_failed_def)
  from sf obtain r where r: "results st3 = results stB @ [r]" "stepIndex r = index (planSteps stB ! p)"
    "result_status r = Failure"
    unfolding step_failed_def by blast
  have ix3: "map index (planSteps st3) = map index steps0"
    and dp3: "map dependsOn (planSteps st3) = map dependsOn steps0"
    using invB by (simp_all add: ps3 map_update_same run_inv_def)
  have n3: "length (planSteps st3) = ?n" using nB by (simp add: ps3)
  have s3p: "status (planSteps st3 ! p) = Failed" using p nB by (simp add: ps3)
  have s3q: "\<And>q. q < ?n \<Longrightarrow> q \<noteq> p \<Longrightarrow>
      status (planSteps st3 ! q) = (if q \<in> set pre' then Done else Pending)"
  proof -
    fix q assume q: "q < ?n" "q \<noteq> p"
    have "status (planSteps stB ! q) = (if q \<in> set pre' then Done else status (steps0 ! q))"
      using invB q(1) unfolding run_inv_def by blast
    moreover have "status (steps0 ! q) = Pending" using pend q(1) by simp
    ultimately show "status (planSteps st3 ! q) = (if q \<in> set pre' then Done else Pending)"
      using q by (simp add: ps3)
  qed
  have post: "only_skips st3 st'" "skip_closed ?f 0 st3 st'"
    using skipFrom_post[of st3 ?f 0] by (simp_all add: st' skipDependents_def)
  have before: "\<And>q. q \<in> set (pre' @ [p]) \<Longrightarrow> (?f, index (steps0 ! q)) \<notin> (dep_rel steps0)\<^sup>+"
    using dependent_not_before[OF dist spec refs] .
  have pend3: "\<forall>q < ?n. (?f, index (steps0 ! q)) \<in> (dep_rel steps0)\<^sup>+ \<longrightarrow>
      status (planSteps st3 ! q) = Pending"
  proof (intro allI impI)
    fix q assume q: "q < ?n" and t: "(?f, index (steps0 ! q)) \<in> (dep_rel steps0)\<^sup>+"
    then have "q \<notin> set (pre' @ [p])" using before by blast
    then show "status (planSteps st3 ! q) = Pending" using s3q[OF q] by simp
  qed
  have 1: "map index (planSteps st') = map index steps0"
    using post(1) ix3 by (simp add: only_skips_def)
  have 2: "status (planSteps st' ! p) = Failed"
    using only_skips_not_pending[OF post(1), of p] p n3 s3p by simp
  have 3: "\<forall>q < ?n. (?f, index (steps0 ! q)) \<in> (dep_rel steps0)\<^sup>+ \<longrightarrow>
      status (planSteps st' ! q) = Skipped"
    using skipped_closure[OF dist ix3 dp3 post pend3] by blast
  from post(1) obtain ws where ws: "statusWrites st' = statusWrites st3 @ ws"
    "\<forall>w \<in> set ws. snd w = Skipped"
    unfolding only_skips_def by blast
  have wB: "\<forall>w \<in> set (statusWrites stB). fst w \<in> set pre' \<and> snd w \<noteq> Skipped"
    using invB unfolding run_inv_def by blast
  have wcases: "\<And>w. w \<in> set (statusWrites st') \<Longrightarrow>
      (fst w \<in> set pre' \<and> snd w \<noteq> Skipped) \<or> w = (p, Active) \<or> w = (p, Failed) \<or> snd w = Skipped"
    using ws wB w3 by auto
  have 4: "\<forall>w \<in> set (statusWrites st'). snd w = Done \<longrightarrow>
      (?f, index (steps0 ! fst w)) \<notin> (dep_rel steps0)\<^sup>+"
  proof (intro ballI impI)
    fix w assume w: "w \<in> set (statusWrites st')" and d: "snd w = Done"
    from wcases[OF w] d have "fst w \<in> set pre'" by auto
    then show "(?f, index (steps0 ! fst w)) \<notin> (dep_rel steps0)\<^sup>+" using before by simp
  qed
  have jl: "?j < length ?refs" and jp: "?refs ! ?j = p" using refs by simp_all
  have tk: "take (Suc ?j) ?refs = pre' @ [p]" using refs by simp
  have 5: "\<forall>w \<in> set (statusWrites st'). snd w \<noteq> Skipped \<longrightarrow> fst w \<in> set (take (Suc ?j) ?refs)"
  proof (intro ballI impI)
    fix w assume w: "w \<in> set (statusWrites st')" and d: "snd w \<noteq> Skipped"
    from wcases[OF w] d show "fst w \<in> set (take (Suc ?j) ?refs)" unfolding tk by auto
  qed
  have res: "results st' = results stB @ [r]" using post(1) r(1) by (simp add: only_skips_def)
  have 6: "length (results st') = Suc ?j" using invB by (simp add: res run_inv_def)
  have ipB: "index (planSteps stB ! p) = ?f"
  proof -
    have "map index (planSteps stB) ! p = map index steps0 ! p"
      using invB by (simp add: run_inv_def)
    then show ?thesis using p nB by simp
  qed
  have 7: "stepIndex (last (results st')) = ?f" "result_status (last (results st')) = Failure"
    using r(2,3) ipB by (simp_all add: res)
  from jl jp 5 6 7 have 8: "\<exists>j < length ?refs. ?refs ! j = p \<and>
            (\<forall>w \<in> set (statusWrites st').
               snd w \<noteq> Skipped \<longrightarrow> fst w \<in> set (take (Suc j) ?refs)) \<and>
            length (results st') = Suc j \<and>
            stepIndex (last (results st')) = ?f \<and>
            result_status (last (results st')) = Failure"
    by blast
  from p 1 2 3 4 8 show ?thesis by blast
qed

theorem failed_step_skips_dependents_witness:
  "distinct (map index diamond) \<and> map status diamond = [Pending, Pending, Pending, Pending] \<and>
   fst (runPlan never_aborted failing_chat failing_rechat diamond) = FailedAt 1 \<and>
   (1, 3) \<in> (dep_rel diamond)\<^sup>+ \<and>
   map status (planSteps (snd (runPlan never_aborted failing_chat failing_rechat diamond))) =
     [Done, Failed, Pending, Skipped] \<and>
   statusWrites (snd (runPlan never_aborted failing_chat failing_rechat diamond)) =
     [(0, Active), (0, Done), (1, Active), (1, Failed), (3, Skipped)]"
proof -
  have h1: "distinct (map index diamond)" by (simp add: diamond_def mk_step_def)
  have h2: "\<forall>s \<in> set diamond. status s = Pending" by (simp add: diamond_def mk_step_def)
  have e: "fst (runPlan never_aborted failing_chat failing_rechat diamond) = FailedAt 1"
    by code_simp
  then have run: "runPlan never_aborted failing_chat failing_rechat diamond =
      (FailedAt 1, snd (runPlan never_aborted failing_chat failing_rechat diamond))"
    by (metis prod.collapse)
  have t: "(1, 3) \<in> (dep_rel diamond)\<^sup>+"
    by (rule r_into_trancl) (simp add: dep_rel_def diamond_def mk_step_def)
  have v: "map status (planSteps (snd (runPlan never_aborted failing_chat failing_rechat diamond))) =
     [Done, Failed, Pending, Skipped]"
    by code_simp
  have w: "statusWrites (snd (runPlan never_aborted failing_chat failing_rechat diamond)) =
     [(0, Active), (0, Done), (1, Active), (1, Failed), (3, Skipped)]"
    by code_simp
  have h2': "map status diamond = [Pending, Pending, Pending, Pending]"
    by (simp add: diamond_def mk_step_def)
  from failed_step_skips_dependents[OF h1 h2 run] h1 h2' e t v w show ?thesis by simp
qed

section \<open>Text chunking (chili-copilot-rag/utils.ts)\<close>

text \<open>
  Strings are lists of code units below 256. The whitespace of \<open>\s\<close> and of \<open>trim\<close> in
  that range: tab, line feed, vertical tab, form feed, carriage return, space and the
  no-break space.
\<close>

definition js_space :: "char \<Rightarrow> bool" where
  "js_space c = (c \<in> {CHR 0x09, CHR 0x0A, CHR 0x0B, CHR 0x0C, CHR 0x0D, CHR 0x20, CHR 0xA0})"

definition trim :: "string \<Rightarrow> string" where
  "trim s = rev (dropWhile js_space (rev (dropWhile js_space s)))"

text \<open>
  \<open>s.slice(a, b)\<close>: a negative bound counts from the end, and both are clamped to the
  string.
\<close>

definition js_slice :: "string \<Rightarrow> int \<Rightarrow> int \<Rightarrow> string" where
  "js_slice s a b =
     (let len = int (length s);
          from = (if a < 0 then max (len + a) 0 else min a len);
          to = (if b < 0 then max (len + b) 0 else min b len)
      in take (nat (to - from)) (drop (nat from) s))"

text \<open>
  \<open>input.split(/\n\s*\n/)\<close>. A match starts at a line feed that is followed by a run of
  whitespace with a line feed in it, and extends (the star is greedy) to the last line
  feed of that run. \<open>cur\<close> is the piece read since the last match.
\<close>

definition upToLastNewline :: "string \<Rightarrow> string" where
  "upToLastNewline run = rev (dropWhile (\<lambda>c. c \<noteq> CHR 0x0A) (rev run))"

function splitParagraphsFrom :: "string \<Rightarrow> string \<Rightarrow> string list" where
  "splitParagraphsFrom cur [] = [cur]"
| "splitParagraphsFrom cur (c # cs) =
     (if c = CHR 0x0A \<and> CHR 0x0A \<in> set (takeWhile js_space cs)
      then cur # splitParagraphsFrom [] (drop (length (upToLastNewline (takeWhile js_space cs))) cs)
      else splitParagraphsFrom (cur @ [c]) cs)"
  by pat_completeness auto
termination
  by (relation "measure (\<lambda>(cur, rest). length rest)") auto

definition splitParagraphs :: "string \<Rightarrow> string list" where
  "splitParagraphs input = splitParagraphsFrom [] input"

text \<open>
  \<open>trimmed.match(/[^.!?]+[.!?]+\s*/g)\<close>: the successive matches, each a maximal run of
  characters that are not terminators, the terminators that follow and the whitespace
  after them. Terminators with nothing before them are passed over, and the search ends
  where no terminator follows.
\<close>

definition is_terminator :: "char \<Rightarrow> bool" where
  "is_terminator c = (c \<in> {CHR ''.'', CHR ''!'', CHR ''?''})"

function matchSentences :: "string \<Rightarrow> string list" where
  "matchSentences [] = []"
| "matchSentences (c # cs) =
     (if is_terminator c then matchSentences cs
      else
        (let body = takeWhile (\<lambda>x. \<not> is_terminator x) (c # cs);
             rest1 = dropWhile (\<lambda>x. \<not> is_terminator x) (c # cs)
         in if rest1 = [] then []
            else
              (let terms = takeWhile is_terminator rest1;
                   rest2 = dropWhile is_terminator rest1;
                   spaces = takeWhile js_space rest2;
                   rest3 = dropWhile js_space rest2
               in (body @ terms @ spaces) # matchSentences rest3)))"
  by pat_completeness auto
termination
proof (relation "measure length", goal_cases)
  case 1
  show ?case by simp
next
  case (2 c cs)
  show ?case by simp
next
  case (3 c cs body rest1 terms rest2 spaces rest3)
  have "length rest3 \<le> length rest2" unfolding 3(8) by (rule length_dropWhile_le)
  also have "\<dots> \<le> length rest1" unfolding 3(6) by (rule length_dropWhile_le)
  also have "\<dots> \<le> length cs" using 3(1) unfolding 3(3) by (simp add: length_dropWhile_le)
  finally show ?case by simp
qed

text \<open>
  The character loop \<open>for (let i = 0; i < sentence.length; i += maxChars - overlapChars)\<close>.
  It does not end when the step is not positive; the result is then \<open>None\<close>.
\<close>

partial_function (option) sliceLoop ::
  "string \<Rightarrow> int \<Rightarrow> int \<Rightarrow> int \<Rightarrow> string list \<Rightarrow> string list option" where
  "sliceLoop sentence maxChars step i chunks =
     (if i < int (length sentence)
      then sliceLoop sentence maxChars step (i + step)
             (chunks @ [trim (js_slice sentence i (i + maxChars))])
      else Some chunks)"

declare sliceLoop.simps [code]

fun sentenceLoop ::
  "int \<Rightarrow> int \<Rightarrow> string list \<Rightarrow> string list \<Rightarrow> string \<Rightarrow> (string list \<times> string) option" where
  "sentenceLoop maxTokens overlap [] chunks sentenceChunk = Some (chunks, sentenceChunk)"
| "sentenceLoop maxTokens overlap (sentence # rest) chunks sentenceChunk =
     (if estimateTokens (sentenceChunk @ sentence) \<le> maxTokens
      then sentenceLoop maxTokens overlap rest chunks (sentenceChunk @ sentence)
      else
        (let chunks1 = (if sentenceChunk \<noteq> [] then chunks @ [trim sentenceChunk] else chunks)
         in if int (length sentence) > maxTokens * 4
            then (case sliceLoop sentence (maxTokens * 4) (maxTokens * 4 - overlap * 4) 0 chunks1 of
                    None \<Rightarrow> None
                  | Some chunks2 \<Rightarrow> sentenceLoop maxTokens overlap rest chunks2 [])
            else sentenceLoop maxTokens overlap rest chunks1 sentence))"

definition paragraph_break :: string where
  "paragraph_break = [CHR 0x0A, CHR 0x0A]"

fun paragraphLoop ::
  "int \<Rightarrow> int \<Rightarrow> string list \<Rightarrow> string list \<Rightarrow> string \<Rightarrow> (string list \<times> string) option" where
  "paragraphLoop maxTokens overlap [] chunks current = Some (chunks, current)"
| "paragraphLoop maxTokens overlap (para # rest) chunks current =
     (let trimmed = trim para in
      if trimmed = [] then paragraphLoop maxTokens overlap rest chunks current
      else if estimateTokens (current @ paragraph_break @ trimmed) \<le> maxTokens
      then paragraphLoop maxTokens overlap rest chunks
             (if current \<noteq> [] then current @ paragraph_break @ trimmed else trimmed)
      else
        (let chunks1 = (if current \<noteq> [] then chunks @ [current] else chunks)
         in if estimateTokens trimmed > maxTokens
            then
              (let sentences = (case matchSentences trimmed of [] \<Rightarrow> [trimmed] | ms \<Rightarrow> ms)
               in case sentenceLoop maxTokens overlap sentences chunks1 [] of
                    None \<Rightarrow> None
                  | Some (chunks2, sentenceChunk) \<Rightarrow>
                      paragraphLoop maxTokens overlap rest
                        (if sentenceChunk \<noteq> [] then chunks2 @ [trim sentenceChunk] else chunks2) [])
            else paragraphLoop maxTokens overlap rest chunks1 trimmed))"

text \<open>
  \<open>chunkText\<close>; \<open>None\<close> when the character loop does not end.
\<close>

definition chunkText :: "string \<Rightarrow> int \<Rightarrow> int \<Rightarrow> string list option" where
  "chunkText input maxTokens overlap =
     (if input = [] then Some []
      else (case paragraphLoop maxTokens overlap (splitParagraphs input) [] [] of
              None \<Rightarrow> None
            | Some (chunks, current) \<Rightarrow>
                Some (filter (\<lambda>c. length c > 0)
                        (if current \<noteq> [] then chunks @ [current] else chunks))))"

text \<open>The text of the repository's paragraph test, and a long word without breaks.\<close>

definition three_paragraphs :: string where
  "three_paragraphs = ''Paragraph one.'' @ paragraph_break @ ''Paragraph two.'' @
                      paragraph_break @ ''Paragraph three.''"

definition long_word :: string where
  "long_word = ''abcdefghijkl''"

text \<open>The non-empty trimmed paragraphs of a text, in order.\<close>

definition paragraphs :: "string \<Rightarrow> string list" where
  "paragraphs input = filter (\<lambda>p. p \<noteq> []) (map trim (splitParagraphs input))"

definition pack :: "string list \<Rightarrow> string \<Rightarrow> string list" where
  "pack chunks current = (if current \<noteq> [] then chunks @ [current] else chunks)"

text \<open>The characters of a string that are not white space, in order.\<close>

definition visible :: "string \<Rightarrow> string" where
  "visible s = filter (\<lambda>c. \<not> js_space c) s"

text \<open>
  The sentences of a trimmed paragraph, \<open>trimmed.match(...) ?? [trimmed]\<close>: the matches
  of the sentence pattern, or the paragraph itself when there is none.
\<close>

definition sentences_of :: "string \<Rightarrow> string list" where
  "sentences_of trimmed = (case matchSentences trimmed of [] \<Rightarrow> [trimmed] | ms \<Rightarrow> ms)"

text \<open>A paragraph of two sentences.\<close>

definition two_sentences :: string where
  "two_sentences = ''Aa bb. Cc dd.''"

lemma js_join_snoc:
  "js_join sep (xs @ [a]) = (if xs = [] then a else js_join sep xs @ sep @ a)"
  by (induction sep xs rule: js_join.induct) auto

lemma paragraphLoop_fits:
  assumes fits: "\<forall>para \<in> set paras. estimateTokens (trim para) \<le> maxTokens"
    and g: "pack chunks current = map (js_join paragraph_break) groups" "[] \<notin> set groups"
    and c: "[] \<notin> set chunks"
  shows "\<exists>chunks' current' groups'.
           paragraphLoop maxTokens overlap paras chunks current = Some (chunks', current') \<and>
           pack chunks' current' = map (js_join paragraph_break) groups' \<and>
           [] \<notin> set groups' \<and> [] \<notin> set chunks' \<and>
           concat groups' = concat groups @ filter (\<lambda>p. p \<noteq> []) (map trim paras)"
  using assms
proof (induction paras arbitrary: chunks current groups)
  case Nil
  then show ?case by auto
next
  case (Cons para paras)
  let ?t = "trim para"
  have fits': "\<forall>para \<in> set paras. estimateTokens (trim para) \<le> maxTokens"
    using Cons.prems(1) by simp
  have ft: "estimateTokens ?t \<le> maxTokens" using Cons.prems(1) by simp
  show ?case
  proof (cases "?t = []")
    case True
    from Cons.IH[OF fits' Cons.prems(2,3,4)] True show ?thesis by (simp add: Let_def)
  next
    case ne: False
    show ?thesis
    proof (cases "estimateTokens (current @ paragraph_break @ ?t) \<le> maxTokens")
      case merge: True
      show ?thesis
      proof (cases "current = []")
        case True
        then have p: "pack chunks ?t = map (js_join paragraph_break) (groups @ [[?t]])"
          using Cons.prems(2) ne by (simp add: pack_def)
        have n: "[] \<notin> set (groups @ [[?t]])" using Cons.prems(3) by simp
        from Cons.IH[OF fits' p n Cons.prems(4)] ne merge True show ?thesis
          by (simp add: Let_def)
      next
        case False
        then have "chunks @ [current] = map (js_join paragraph_break) groups"
          using Cons.prems(2) by (simp add: pack_def)
        then obtain g0 g where gs: "groups = g0 @ [g]" "chunks = map (js_join paragraph_break) g0"
          "current = js_join paragraph_break g"
          by (cases groups rule: rev_cases) auto
        have gne: "g \<noteq> []" using Cons.prems(3) gs(1) by auto
        have "js_join paragraph_break (g @ [?t]) = current @ paragraph_break @ ?t"
          using gne gs(3) by (simp add: js_join_snoc)
        then have p: "pack chunks (current @ paragraph_break @ ?t) =
            map (js_join paragraph_break) (g0 @ [g @ [?t]])"
          using gs(2) False by (simp add: pack_def)
        have n: "[] \<notin> set (g0 @ [g @ [?t]])" using Cons.prems(3) gs(1) by simp
        from Cons.IH[OF fits' p n Cons.prems(4)] ne merge False gs(1) show ?thesis
          by (simp add: Let_def)
      qed
    next
      case nomerge: False
      let ?chunks1 = "if current \<noteq> [] then chunks @ [current] else chunks"
      have p: "pack ?chunks1 ?t = map (js_join paragraph_break) (groups @ [[?t]])"
        using Cons.prems(2) ne by (simp add: pack_def)
      have n: "[] \<notin> set (groups @ [[?t]])" using Cons.prems(3) by simp
      have c1: "[] \<notin> set ?chunks1" using Cons.prems(4) by simp
      from Cons.IH[OF fits' p n c1] ne nomerge ft show ?thesis
        by (simp add: Let_def)
    qed
  qed
qed

text \<open>
  White space apart, neither the trimming nor the cutting into paragraphs, sentences and
  slices without overlap loses or reorders text.
\<close>

lemma visible_append: "visible (a @ b) = visible a @ visible b"
  by (simp add: visible_def)

lemma visible_dropWhile: "visible (dropWhile js_space s) = visible s"
  by (induction s) (simp_all add: visible_def)

lemma visible_trim: "visible (trim s) = visible s"
proof -
  have "visible (trim s) = rev (visible (dropWhile js_space (rev (dropWhile js_space s))))"
    by (simp add: trim_def visible_def rev_filter)
  also have "\<dots> = rev (visible (rev (dropWhile js_space s)))"
    by (simp only: visible_dropWhile)
  also have "\<dots> = visible (dropWhile js_space s)"
    by (simp add: visible_def rev_filter)
  finally show ?thesis by (simp only: visible_dropWhile)
qed

lemma visible_paragraph_break: "visible paragraph_break = []"
  by (simp add: visible_def paragraph_break_def js_space_def)

lemma visible_concat_nonempty:
  "visible (concat (filter (\<lambda>c. length c > 0) xs)) = visible (concat xs)"
  by (induction xs) (simp_all add: visible_def)

lemma visible_concat_map_trim: "visible (concat (map trim xs)) = visible (concat xs)"
  by (induction xs) (simp_all add: visible_append visible_trim)

lemma visible_concat_ne: "visible (concat (filter (\<lambda>p. p \<noteq> []) xs)) = visible (concat xs)"
  by (induction xs) (simp_all add: visible_def)

lemma js_slice_step:
  assumes "0 \<le> i" "i < int (length s)" "0 < mc"
  shows "js_slice s i (i + mc) = take (nat mc) (drop (nat i) s)"
  using assms by (auto simp: js_slice_def Let_def min_def)

lemma sliceLoop_cover:
  assumes "0 < mc" "0 \<le> i"
  shows "\<exists>sl. sliceLoop s mc mc i chunks = Some (chunks @ sl) \<and>
              visible (concat sl) = visible (drop (nat i) s)"
  using assms(2)
proof (induction "length s - nat i" arbitrary: i chunks rule: less_induct)
  case less
  show ?case
  proof (cases "i < int (length s)")
    case False
    then show ?thesis using less.prems by (subst sliceLoop.simps) (simp add: visible_def)
  next
    case True
    let ?c = "trim (js_slice s i (i + mc))"
    have m: "length s - nat (i + mc) < length s - nat i" using True less.prems assms(1) by linarith
    from less.hyps[OF m, of "chunks @ [?c]"] less.prems assms(1)
    obtain sl where sl: "sliceLoop s mc mc (i + mc) (chunks @ [?c]) = Some ((chunks @ [?c]) @ sl)"
      "visible (concat sl) = visible (drop (nat (i + mc)) s)" by auto
    have d: "drop (nat (i + mc)) s = drop (nat mc) (drop (nat i) s)"
      using less.prems assms(1) by (simp add: nat_add_distrib add.commute)
    have "visible (concat (?c # sl)) = visible (take (nat mc) (drop (nat i) s)) @ visible (drop (nat mc) (drop (nat i) s))"
      using sl(2) d js_slice_step[OF less.prems True assms(1)] by (simp add: visible_append visible_trim)
    also have "\<dots> = visible (drop (nat i) s)"
      by (simp only: visible_append[symmetric] append_take_drop_id)
    finally have v: "visible (concat (?c # sl)) = visible (drop (nat i) s)" .
    have "sliceLoop s mc mc i chunks = Some (chunks @ (?c # sl))"
      using True sl(1) by (subst sliceLoop.simps) simp
    with v show ?thesis by blast
  qed
qed

lemma sentenceLoop_cover:
  assumes "\<forall>s \<in> set sentences. maxTokens * 4 < int (length s) \<longrightarrow> overlap = 0 \<and> 0 < maxTokens"
  shows "\<exists>chunks' sc'. sentenceLoop maxTokens overlap sentences chunks sc = Some (chunks', sc') \<and>
           visible (concat chunks' @ sc') = visible (concat chunks @ sc @ concat sentences)"
  using assms
proof (induction sentences arbitrary: chunks sc)
  case Nil
  then show ?case by simp
next
  case (Cons sentence rest)
  have r: "\<forall>s \<in> set rest. maxTokens * 4 < int (length s) \<longrightarrow> overlap = 0 \<and> 0 < maxTokens"
    using Cons.prems by simp
  let ?chunks1 = "if sc \<noteq> [] then chunks @ [trim sc] else chunks"
  have c1: "visible (concat ?chunks1) = visible (concat chunks @ sc)"
    by (simp add: visible_append visible_trim) (simp add: visible_def)
  show ?case
  proof (cases "estimateTokens (sc @ sentence) \<le> maxTokens")
    case True
    from Cons.IH[OF r, of chunks "sc @ sentence"] True show ?thesis by simp
  next
    case False
    show ?thesis
    proof (cases "maxTokens * 4 < int (length sentence)")
      case long: True
      then have o: "overlap = 0" "0 < maxTokens" using Cons.prems by simp_all
      from sliceLoop_cover[of "maxTokens * 4" 0 sentence ?chunks1] o
      obtain sl where sl: "sliceLoop sentence (maxTokens * 4) (maxTokens * 4) 0 ?chunks1 = Some (?chunks1 @ sl)"
        "visible (concat sl) = visible sentence" by auto
      from Cons.IH[OF r, of "?chunks1 @ sl" "[]"]
      obtain chunks' sc' where k: "sentenceLoop maxTokens overlap rest (?chunks1 @ sl) [] = Some (chunks', sc')"
        "visible (concat chunks' @ sc') = visible (concat (?chunks1 @ sl) @ [] @ concat rest)" by blast
      have "sentenceLoop maxTokens overlap (sentence # rest) chunks sc = Some (chunks', sc')"
        using False long o sl(1) k(1) by (simp add: Let_def)
      moreover have "visible (concat chunks' @ sc') = visible (concat chunks @ sc @ concat (sentence # rest))"
        using k(2) sl(2) c1 by (simp add: visible_append)
      ultimately show ?thesis by blast
    next
      case short: False
      from Cons.IH[OF r, of ?chunks1 sentence]
      obtain chunks' sc' where k: "sentenceLoop maxTokens overlap rest ?chunks1 sentence = Some (chunks', sc')"
        "visible (concat chunks' @ sc') = visible (concat ?chunks1 @ sentence @ concat rest)" by blast
      have "sentenceLoop maxTokens overlap (sentence # rest) chunks sc = Some (chunks', sc')"
        using False short k(1) by (simp add: Let_def)
      moreover have "visible (concat chunks' @ sc') = visible (concat chunks @ sc @ concat (sentence # rest))"
        using k(2) c1 by (simp add: visible_append)
      ultimately show ?thesis by blast
    qed
  qed
qed


lemma visible_pack: "visible (concat (pack chunks current)) = visible (concat chunks @ current)"
  by (simp add: pack_def visible_def)

lemma paragraphLoop_cover:
  assumes "\<forall>para \<in> set paras. trim para \<noteq> [] \<and> maxTokens < estimateTokens (trim para) \<longrightarrow>
             concat (sentences_of (trim para)) = trim para \<and>
             (\<forall>s \<in> set (sentences_of (trim para)).
                maxTokens * 4 < int (length s) \<longrightarrow> overlap = 0 \<and> 0 < maxTokens)"
  shows "\<exists>chunks' current'.
           paragraphLoop maxTokens overlap paras chunks current = Some (chunks', current') \<and>
           visible (concat chunks' @ current') = visible (concat chunks @ current @ concat paras)"
  using assms
proof (induction paras arbitrary: chunks current)
  case Nil
  then show ?case by simp
next
  case (Cons para paras)
  let ?t = "trim para"
  have r: "\<forall>para \<in> set paras. trim para \<noteq> [] \<and> maxTokens < estimateTokens (trim para) \<longrightarrow>
             concat (sentences_of (trim para)) = trim para \<and>
             (\<forall>s \<in> set (sentences_of (trim para)).
                maxTokens * 4 < int (length s) \<longrightarrow> overlap = 0 \<and> 0 < maxTokens)"
    using Cons.prems by simp
  have vt: "visible ?t = visible para" by (rule visible_trim)
  show ?case
  proof (cases "?t = []")
    case True
    then have "visible para = []" using vt by (simp add: visible_def)
    with Cons.IH[OF r, of chunks current] True show ?thesis
      by (simp add: Let_def visible_append)
  next
    case ne: False
    show ?thesis
    proof (cases "estimateTokens (current @ paragraph_break @ ?t) \<le> maxTokens")
      case merge: True
      let ?cur = "if current \<noteq> [] then current @ paragraph_break @ ?t else ?t"
      have v: "visible ?cur = visible current @ visible para"
        using vt by (simp add: visible_append visible_paragraph_break) (simp add: visible_def)
      from Cons.IH[OF r, of chunks ?cur]
      obtain chunks' current' where k:
        "paragraphLoop maxTokens overlap paras chunks ?cur = Some (chunks', current')"
        "visible (concat chunks' @ current') = visible (concat chunks @ ?cur @ concat paras)"
        by blast
      have "paragraphLoop maxTokens overlap (para # paras) chunks current = Some (chunks', current')"
        using ne merge k(1) by (simp add: Let_def)
      moreover have "visible (concat chunks' @ current') =
          visible (concat chunks @ current @ concat (para # paras))"
        using k(2) v by (simp only: visible_append concat.simps append_assoc)
      ultimately show ?thesis by blast
    next
      case nomerge: False
      let ?chunks1 = "if current \<noteq> [] then chunks @ [current] else chunks"
      have c1: "visible (concat ?chunks1) = visible (concat chunks @ current)"
        by (simp add: visible_def)
      show ?thesis
      proof (cases "maxTokens < estimateTokens ?t")
        case long: True
        then have h: "concat (sentences_of ?t) = ?t"
          "\<forall>s \<in> set (sentences_of ?t). maxTokens * 4 < int (length s) \<longrightarrow> overlap = 0 \<and> 0 < maxTokens"
          using Cons.prems ne by simp_all
        from sentenceLoop_cover[OF h(2), of ?chunks1 "[]"]
        obtain chunks2 sc where s2:
          "sentenceLoop maxTokens overlap (sentences_of ?t) ?chunks1 [] = Some (chunks2, sc)"
          "visible (concat chunks2 @ sc) = visible (concat ?chunks1 @ [] @ concat (sentences_of ?t))"
          by blast
        let ?chunks3 = "if sc \<noteq> [] then chunks2 @ [trim sc] else chunks2"
        have c3: "visible (concat ?chunks3) = visible (concat chunks @ current @ para)"
        proof -
          have "visible (concat ?chunks3) = visible (concat chunks2 @ sc)"
            by (simp add: visible_append visible_trim) (simp add: visible_def)
          also have "\<dots> = visible (concat ?chunks1) @ visible ?t"
            using s2(2) h(1) by (simp add: visible_append)
          finally show ?thesis using c1 vt by (simp add: visible_append)
        qed
        from Cons.IH[OF r, of ?chunks3 "[]"]
        obtain chunks' current' where k:
          "paragraphLoop maxTokens overlap paras ?chunks3 [] = Some (chunks', current')"
          "visible (concat chunks' @ current') = visible (concat ?chunks3 @ [] @ concat paras)"
          by blast
        have "paragraphLoop maxTokens overlap (para # paras) chunks current = Some (chunks', current')"
          using ne nomerge long s2(1) k(1) by (simp add: Let_def sentences_of_def)
        moreover have "visible (concat chunks' @ current') =
            visible (concat chunks @ current @ concat (para # paras))"
          using k(2) c3 by (simp add: visible_append)
        ultimately show ?thesis by blast
      next
        case short: False
        from Cons.IH[OF r, of ?chunks1 ?t]
        obtain chunks' current' where k:
          "paragraphLoop maxTokens overlap paras ?chunks1 ?t = Some (chunks', current')"
          "visible (concat chunks' @ current') = visible (concat ?chunks1 @ ?t @ concat paras)"
          by blast
        have "paragraphLoop maxTokens overlap (para # paras) chunks current = Some (chunks', current')"
          using ne nomerge short k(1) by (simp add: Let_def)
        moreover have "visible (concat chunks' @ current') =
            visible (concat chunks @ current @ concat (para # paras))"
          using k(2) c1 vt by (simp add: visible_append)
        ultimately show ?thesis by blast
      qed
    qed
  qed
qed

lemma visible_drop_spaces:
  "n \<le> length (takeWhile js_space cs) \<Longrightarrow> visible (drop n cs) = visible cs"
proof (induction cs arbitrary: n)
  case Nil
  then show ?case by simp
next
  case (Cons c cs)
  then show ?case by (cases n) (auto simp: visible_def split: if_splits)
qed

lemma length_upToLastNewline: "length (upToLastNewline run) \<le> length run"
  by (simp add: upToLastNewline_def) (metis length_dropWhile_le length_rev)

lemma splitParagraphsFrom_visible:
  "visible (concat (splitParagraphsFrom cur rest)) = visible (cur @ rest)"
proof (induction cur rest rule: splitParagraphsFrom.induct)
  case (1 cur)
  show ?case by simp
next
  case (2 cur c cs)
  show ?case
  proof (cases "c = CHR 0x0A \<and> CHR 0x0A \<in> set (takeWhile js_space cs)")
    case True
    have "visible (drop (length (upToLastNewline (takeWhile js_space cs))) cs) = visible cs"
      by (rule visible_drop_spaces) (rule length_upToLastNewline)
    moreover have "js_space c" using True by (simp add: js_space_def)
    ultimately show ?thesis using 2(1)[OF True] True
      by (simp add: visible_append) (simp add: visible_def)
  next
    case False
    then have "splitParagraphsFrom cur (c # cs) = splitParagraphsFrom (cur @ [c]) cs"
      by auto
    with 2(2)[OF False] show ?thesis by simp
  qed
qed

lemma paragraphs_visible: "visible (concat (paragraphs input)) = visible input"
  by (simp add: paragraphs_def visible_concat_ne visible_concat_map_trim splitParagraphs_def
      splitParagraphsFrom_visible)

lemma chunkText_cover:
  assumes "input \<noteq> []"
    and "\<forall>para \<in> set (paragraphs input). maxTokens < estimateTokens para \<longrightarrow>
           concat (sentences_of para) = para \<and>
           (\<forall>s \<in> set (sentences_of para).
              maxTokens * 4 < int (length s) \<longrightarrow> overlap = 0 \<and> 0 < maxTokens)"
  shows "\<exists>chunks. chunkText input maxTokens overlap = Some chunks \<and> [] \<notin> set chunks \<and>
           visible (concat chunks) = visible (concat (paragraphs input))"
proof -
  have h: "\<forall>para \<in> set (splitParagraphs input).
             trim para \<noteq> [] \<and> maxTokens < estimateTokens (trim para) \<longrightarrow>
             concat (sentences_of (trim para)) = trim para \<and>
             (\<forall>s \<in> set (sentences_of (trim para)).
                maxTokens * 4 < int (length s) \<longrightarrow> overlap = 0 \<and> 0 < maxTokens)"
    using assms(2) by (auto simp: paragraphs_def)
  from paragraphLoop_cover[OF h, of "[]" "[]"]
  obtain chunks' current' where k:
    "paragraphLoop maxTokens overlap (splitParagraphs input) [] [] = Some (chunks', current')"
    "visible (concat chunks' @ current') = visible (concat (splitParagraphs input))"
    by auto
  let ?out = "filter (\<lambda>c. length c > 0) (pack chunks' current')"
  have "chunkText input maxTokens overlap = Some ?out"
    using assms(1) k(1) by (simp add: chunkText_def pack_def)
  moreover have "[] \<notin> set ?out" by simp
  moreover have "visible (concat ?out) = visible (concat (paragraphs input))"
    using k(2) paragraphs_visible[of input]
    by (simp add: visible_concat_ne visible_pack splitParagraphs_def splitParagraphsFrom_visible)
  ultimately show ?thesis by blast
qed

text \<open>
  C9 (as the code has it). \<open>estimateTokens\<close> of the empty string is 0 and \<open>chunkText\<close> of
  the empty string is the empty list. For a non-empty text none of whose trimmed
  paragraphs exceeds \<open>maxTokens\<close>, \<open>chunkText\<close> returns, and its chunks are the text's
  non-empty trimmed paragraphs in their original order, grouped into consecutive runs,
  each run joined by a blank line into one chunk. A paragraph that exceeds \<open>maxTokens\<close>
  is cut into its sentences, and a sentence of more than \<open>4 * maxTokens\<close> characters
  into slices; the chunks are trimmed, so the white space at a cut is lost. When the
  sentences of every such paragraph make up the paragraph, and no slice overlaps the
  one before it (a sentence is sliced only with \<open>overlap\<close> 0 and a positive
  \<open>maxTokens\<close>), \<open>chunkText\<close> returns, no chunk is empty, and the chunks concatenated in
  their output order are, up to white space, the paragraphs concatenated in their
  original order, which in turn are the text up to white space.
\<close>

theorem chunkText_paragraphs:
  "estimateTokens [] = 0 \<and> chunkText [] maxTokens overlap = Some [] \<and>
   (input \<noteq> [] \<and>
    (\<forall>para \<in> set (splitParagraphs input). estimateTokens (trim para) \<le> maxTokens) \<longrightarrow>
      (\<exists>groups. chunkText input maxTokens overlap =
                   Some (map (js_join paragraph_break) groups) \<and>
               [] \<notin> set groups \<and> concat groups = paragraphs input)) \<and>
   (input \<noteq> [] \<and>
    (\<forall>para \<in> set (paragraphs input). maxTokens < estimateTokens para \<longrightarrow>
       concat (sentences_of para) = para \<and>
       (\<forall>s \<in> set (sentences_of para).
          maxTokens * 4 < int (length s) \<longrightarrow> overlap = 0 \<and> 0 < maxTokens)) \<longrightarrow>
      (\<exists>chunks. chunkText input maxTokens overlap = Some chunks \<and> [] \<notin> set chunks \<and>
          visible (concat chunks) = visible (concat (paragraphs input)))) \<and>
   visible (concat (paragraphs input)) = visible input"
proof (intro conjI impI)
  show "estimateTokens [] = 0" by (simp add: estimateTokens_def)
  show "chunkText [] maxTokens overlap = Some []" by (simp add: chunkText_def)
  show "visible (concat (paragraphs input)) = visible input" by (rule paragraphs_visible)
next
  assume a: "input \<noteq> [] \<and>
    (\<forall>para \<in> set (splitParagraphs input). estimateTokens (trim para) \<le> maxTokens)"
  have "pack [] [] = map (js_join paragraph_break) []" by (simp add: pack_def)
  from paragraphLoop_fits[OF conjunct2[OF a] this, of overlap]
  obtain chunks' current' groups' where r:
    "paragraphLoop maxTokens overlap (splitParagraphs input) [] [] = Some (chunks', current')"
    "pack chunks' current' = map (js_join paragraph_break) groups'"
    "[] \<notin> set groups'" "[] \<notin> set chunks'"
    "concat groups' = paragraphs input"
    by (auto simp: paragraphs_def)
  have "[] \<notin> set (pack chunks' current')" using r(4) by (simp add: pack_def)
  then have "filter (\<lambda>c. length c > 0) (pack chunks' current') = pack chunks' current'"
    by (simp add: filter_id_conv) (metis length_greater_0_conv)
  then have "chunkText input maxTokens overlap = Some (map (js_join paragraph_break) groups')"
    using a r(1,2) by (simp add: chunkText_def pack_def)
  then show "\<exists>groups. chunkText input maxTokens overlap =
                   Some (map (js_join paragraph_break) groups) \<and>
               [] \<notin> set groups \<and> concat groups = paragraphs input"
    using r(3,5) by blast
next
  assume a: "input \<noteq> [] \<and>
    (\<forall>para \<in> set (paragraphs input). maxTokens < estimateTokens para \<longrightarrow>
       concat (sentences_of para) = para \<and>
       (\<forall>s \<in> set (sentences_of para).
          maxTokens * 4 < int (length s) \<longrightarrow> overlap = 0 \<and> 0 < maxTokens))"
  from chunkText_cover[OF conjunct1[OF a] conjunct2[OF a]]
  show "\<exists>chunks. chunkText input maxTokens overlap = Some chunks \<and> [] \<notin> set chunks \<and>
          visible (concat chunks) = visible (concat (paragraphs input))" .
qed

theorem chunkText_paragraphs_witness:
  "three_paragraphs \<noteq> [] \<and>
   paragraphs three_paragraphs = [''Paragraph one.'', ''Paragraph two.'', ''Paragraph three.''] \<and>
   chunkText three_paragraphs 5 0 =
     Some [''Paragraph one.'', ''Paragraph two.'', ''Paragraph three.''] \<and>
   chunkText long_word 2 0 = Some [''abcdefgh'', ''ijkl''] \<and>
   concat [''abcdefgh'', ''ijkl''] = long_word \<and>
   sentences_of two_sentences = [''Aa bb. '', ''Cc dd.''] \<and>
   chunkText two_sentences 2 0 = Some [''Aa bb.'', ''Cc dd.''] \<and>
   chunkText two_sentences 2 1 = Some [''Aa bb.'', ''Cc dd.''] \<and>
   visible (concat [''Aa bb.'', ''Cc dd.'']) = visible two_sentences"
proof -
  have h1: "three_paragraphs \<noteq> []" by (simp add: three_paragraphs_def)
  have h2: "\<forall>para \<in> set (splitParagraphs three_paragraphs). estimateTokens (trim para) \<le> 5"
    by code_simp
  have p: "paragraphs three_paragraphs = [''Paragraph one.'', ''Paragraph two.'', ''Paragraph three.'']"
    by code_simp
  have e: "chunkText three_paragraphs 5 0 =
     Some [''Paragraph one.'', ''Paragraph two.'', ''Paragraph three.'']"
    by code_simp
  have 1: "three_paragraphs \<noteq> [] \<and>
     paragraphs three_paragraphs = [''Paragraph one.'', ''Paragraph two.'', ''Paragraph three.''] \<and>
     chunkText three_paragraphs 5 0 =
       Some [''Paragraph one.'', ''Paragraph two.'', ''Paragraph three.'']"
    using chunkText_paragraphs[of 5 0 three_paragraphs] h1 h2 p e by simp
  have w1: "long_word \<noteq> []" by (simp add: long_word_def)
  have w2: "\<forall>para \<in> set (paragraphs long_word). 2 < estimateTokens para \<longrightarrow>
       concat (sentences_of para) = para \<and>
       (\<forall>s \<in> set (sentences_of para). 2 * 4 < int (length s) \<longrightarrow> (0::int) = 0 \<and> (0::int) < 2)"
    by code_simp
  have w3: "chunkText long_word 2 0 = Some [''abcdefgh'', ''ijkl'']" by code_simp
  have w4: "concat [''abcdefgh'', ''ijkl''] = long_word" by (simp add: long_word_def)
  have w5: "\<exists>chunks. chunkText long_word 2 0 = Some chunks \<and> [] \<notin> set chunks \<and>
      visible (concat chunks) = visible (concat (paragraphs long_word))"
    using chunkText_paragraphs[of 2 0 long_word] w1 w2 by blast
  have 2: "chunkText long_word 2 0 = Some [''abcdefgh'', ''ijkl''] \<and>
     concat [''abcdefgh'', ''ijkl''] = long_word"
    using w5 w3 w4 by simp
  have s1: "two_sentences \<noteq> []" by (simp add: two_sentences_def)
  have s2: "\<forall>para \<in> set (paragraphs two_sentences). 2 < estimateTokens para \<longrightarrow>
       concat (sentences_of para) = para \<and>
       (\<forall>s \<in> set (sentences_of para). 2 * 4 < int (length s) \<longrightarrow> (0::int) = 0 \<and> (0::int) < 2)"
    by code_simp
  have s3: "\<forall>para \<in> set (paragraphs two_sentences). 2 < estimateTokens para \<longrightarrow>
       concat (sentences_of para) = para \<and>
       (\<forall>s \<in> set (sentences_of para). 2 * 4 < int (length s) \<longrightarrow> (1::int) = 0 \<and> (0::int) < 2)"
    by code_simp
  have s4: "sentences_of two_sentences = [''Aa bb. '', ''Cc dd.'']" by code_simp
  have s5: "chunkText two_sentences 2 0 = Some [''Aa bb.'', ''Cc dd.'']" by code_simp
  have s6: "chunkText two_sentences 2 1 = Some [''Aa bb.'', ''Cc dd.'']" by code_simp
  have s7: "visible (concat [''Aa bb.'', ''Cc dd.'']) = visible two_sentences" by code_simp
  have s8: "\<exists>chunks. chunkText two_sentences 2 0 = Some chunks \<and> [] \<notin> set chunks \<and>
      visible (concat chunks) = visible (concat (paragraphs two_sentences))"
    using chunkText_paragraphs[of 2 0 two_sentences] s1 s2 by blast
  have s9: "\<exists>chunks. chunkText two_sentences 2 1 = Some chunks \<and> [] \<notin> set chunks \<and>
      visible (concat chunks) = visible (concat (paragraphs two_sentences))"
    using chunkText_paragraphs[of 2 1 two_sentences] s1 s3 by blast
  have 3: "sentences_of two_sentences = [''Aa bb. '', ''Cc dd.''] \<and>
     chunkText two_sentences 2 0 = Some [''Aa bb.'', ''Cc dd.''] \<and>
     chunkText two_sentences 2 1 = Some [''Aa bb.'', ''Cc dd.''] \<and>
     visible (concat [''Aa bb.'', ''Cc dd.'']) = visible two_sentences"
    using s8 s9 s4 s5 s6 s7 by simp
  from 1 2 3 show ?thesis by simp
qed

text \<open>
  C9 as stated fails: a paragraph longer than \<open>maxTokens\<close> without sentence terminators
  is cut into slices that overlap by \<open>overlap\<close> tokens, so the chunks in order repeat
  text of the paragraph and their concatenation is not the paragraph, white space
  apart or not.
\<close>

theorem chunkText_overlap_repeats:
  "paragraphs long_word = [long_word] \<and>
   chunkText long_word 2 1 = Some [''abcdefgh'', ''efghijkl'', ''ijkl''] \<and>
   concat [''abcdefgh'', ''efghijkl'', ''ijkl''] \<noteq> long_word \<and>
   js_join paragraph_break [''abcdefgh'', ''efghijkl'', ''ijkl''] \<noteq> long_word \<and>
   visible (concat [''abcdefgh'', ''efghijkl'', ''ijkl'']) \<noteq> visible long_word"
  by code_simp

text \<open>
  The sentence pattern passes over what follows the last terminator of a paragraph, and
  over terminators that no other character precedes. In a paragraph longer than
  \<open>maxTokens\<close> the text it passes over is in no chunk: of \<open>Hello. World\<close> under a
  \<open>maxTokens\<close> of 1 the only sentence is \<open>Hello. \<close>, and the word after it is lost. The
  statement above leaves such paragraphs aside.
\<close>

lemma chunkText_drops_unmatched_text:
  "sentences_of ''Hello. World'' = [''Hello. ''] \<and>
   chunkText ''Hello. World'' 1 0 = Some [''Hell'', ''o.''] \<and>
   sentences_of ''?Yes. No.'' = [''Yes. '', ''No.''] \<and>
   chunkText ''?Yes. No.'' 1 0 = Some [''Yes.'', ''No.'']"
  by code_simp

end
